theory Spec2Isabelle
  imports Main "HOL-Library.Word" "HOL-Library.Sublist"
begin

unbundle bit_operations_syntax

section \<open>Bytes, C strings and the C library routines the converter calls\<close>

text \<open>
  A C string is modelled by the list of the bytes that precede its terminating NUL, so
  \<open>strlen\<close> is \<open>length\<close> and the test \<open>*p == '\0'\<close> is the test for the empty
  remainder. \<open>char\<close> is an 8-bit byte. The converter never calls \<open>setlocale\<close>, so
  \<open>isspace\<close> and \<open>tolower\<close> are those of the "C" locale. Positions inside a string are
  offsets from its first byte; a search that returns a null pointer returns \<open>None\<close>.
\<close>

abbreviation bs :: char where "bs \<equiv> CHR 0x5C"

abbreviation nl :: char where "nl \<equiv> CHR 0x0A"

definition MaxPathLen :: nat where
  "MaxPathLen = 4096"

definition c_isspace :: "char \<Rightarrow> bool" where
  "c_isspace c = (c = CHR 0x20 \<or> c = CHR 0x09 \<or> c = CHR 0x0A \<or> c = CHR 0x0B \<or> c = CHR 0x0C \<or> c = CHR 0x0D)"

definition c_tolower :: "char \<Rightarrow> char" where
  "c_tolower c = (let n = (of_char c :: nat) in if 65 \<le> n \<and> n \<le> 90 then char_of (n + 32) else c)"

definition c_isdigit :: "char \<Rightarrow> bool" where
  "c_isdigit c = (let n = (of_char c :: nat) in 48 \<le> n \<and> n \<le> 57)"

fun strchr :: "string \<Rightarrow> char \<Rightarrow> nat option" where
  "strchr [] c = None"
| "strchr (x # xs) c = (if x = c then Some 0 else map_option Suc (strchr xs c))"

fun strrchr :: "string \<Rightarrow> char \<Rightarrow> nat option" where
  "strrchr [] c = None"
| "strrchr (x # xs) c =
     (case strrchr xs c of
        Some k \<Rightarrow> Some (Suc k)
      | None \<Rightarrow> if x = c then Some 0 else None)"

text \<open>\<open>snprintf(dst, cap, "%s", src)\<close> stores at most \<open>cap - 1\<close> bytes of \<open>src\<close>.\<close>

definition snprintf_s :: "nat \<Rightarrow> string \<Rightarrow> string" where
  "snprintf_s cap src = take (cap - 1) src"

subsection \<open>\<open>trimRight\<close>, \<open>startsWith\<close>, \<open>startsWithIgnoreCase\<close>\<close>

text \<open>
  \<open>trimRight\<close> removes bytes from the end while the last byte satisfies the loop
  condition \<open>trimChar\<close>.
\<close>

definition trimChar :: "char \<Rightarrow> bool" where
  "trimChar c = (c = CHR 0x0D \<or> c = CHR 0x0A \<or> c_isspace c)"

definition trimRight :: "string \<Rightarrow> string" where
  "trimRight s = rev (dropWhile trimChar (rev s))"

definition startsWith :: "string \<Rightarrow> string \<Rightarrow> bool" where
  "startsWith s pfx = (take (length pfx) s = pfx)"

text \<open>
  The loop of \<open>startsWithIgnoreCase\<close> runs over the prefix. When the string ends first,
  \<open>*s\<close> is the terminator, whose lower-case form 0 differs from that of every prefix byte.
\<close>

fun startsWithIgnoreCase :: "string \<Rightarrow> string \<Rightarrow> bool" where
  "startsWithIgnoreCase s [] = True"
| "startsWithIgnoreCase [] (p # ps) = False"
| "startsWithIgnoreCase (c # cs) (p # ps) =
     (if c_tolower c \<noteq> c_tolower p then False else startsWithIgnoreCase cs ps)"

section \<open>Escaping: \<open>utf8CharLen\<close> and \<open>writeLatexEscaped\<close>\<close>

definition utf8CharLen :: "char \<Rightarrow> nat" where
  "utf8CharLen c =
     (let w = (of_char c :: 8 word) in
      if w AND 0x80 = 0 then 1
      else if w AND 0xE0 = 0xC0 then 2
      else if w AND 0xF0 = 0xE0 then 3
      else if w AND 0xF8 = 0xF0 then 4
      else 1)"

text \<open>The \<open>switch\<close> of \<open>writeLatexEscaped\<close> on a byte below 0x80.\<close>

definition escapeAscii :: "char \<Rightarrow> string" where
  "escapeAscii c =
     (if c = bs then bs # ''textbackslash{}''
      else if c = CHR ''{'' then [bs, CHR ''{'']
      else if c = CHR ''}'' then [bs, CHR ''}'']
      else if c = CHR ''#'' then [bs, CHR ''#'']
      else if c = CHR ''$'' then [bs, CHR ''$'']
      else if c = CHR ''%'' then [bs, CHR ''%'']
      else if c = CHR ''&'' then [bs, CHR ''&'']
      else if c = CHR ''_'' then [bs, CHR ''_'']
      else if c = CHR ''^'' then bs # ''textasciicircum{}''
      else if c = CHR ''~'' then bs # ''textasciitilde{}''
      else [c])"

definition emojiOpen :: string where
  "emojiOpen = bs # ''emoji{''"

definition emojiClose :: string where
  "emojiClose = ''}''"

text \<open>
  The loop of \<open>writeLatexEscaped\<close>, one list element per iteration: the bytes the
  iteration advances \<open>p\<close> over, and the bytes it writes to \<open>out\<close>. The argument is the
  string from \<open>p\<close> on. For a byte with the high bit set the source copies \<open>len\<close> bytes
  from \<open>p\<close> and advances by \<open>len\<close> without looking for the terminator; when fewer than
  \<open>len\<close> bytes remain, the copy takes in the terminator and the next test of \<open>*p\<close> reads
  beyond it, so the outcome is not a function of the string: that is \<open>None\<close>.
\<close>

function escapeSteps :: "string \<Rightarrow> (string \<times> string) list option" where
  "escapeSteps [] = Some []"
| "escapeSteps (c # cs) =
     (if (of_char c :: nat) < 0x80 then
        map_option ((#) ([c], escapeAscii c)) (escapeSteps cs)
      else
        (let len = utf8CharLen c in
         if length (c # cs) < len then None
         else map_option ((#) (take len (c # cs), emojiOpen @ take len (c # cs) @ emojiClose))
                (escapeSteps (drop len (c # cs)))))"
  by pat_completeness auto
termination
  by (relation "measure length") (auto simp: utf8CharLen_def Let_def)

definition writeLatexEscaped :: "string \<Rightarrow> string option" where
  "writeLatexEscaped s = map_option (\<lambda>steps. concat (map snd steps)) (escapeSteps s)"

section \<open>The attachment catalog\<close>

text \<open>
  \<open>AttachmentFile\<close> as the source declares it; the two fixed arrays hold C strings of at
  most \<open>MaxPathLen - 1\<close> bytes. \<open>AttachmentList\<close> is the sequence \<open>items[0..count)\<close>;
  its capacity only matters to \<open>realloc\<close> and is left out. File sizes and the byte
  count of a reference are \<open>long long\<close> values, read as integers. An index returned as
  \<open>(int)i\<close> is the integer \<open>i\<close>: a catalog stays below \<open>2^31\<close> entries of 8 KiB each.
\<close>

record AttachmentFile =
  fileName :: string
  fullPath :: string
  fileSize :: int
  used :: bool

type_synonym AttachmentList = "AttachmentFile list"

definition hasImageExtension :: "string \<Rightarrow> bool" where
  "hasImageExtension name =
     (case strrchr name (CHR ''.'') of
        None \<Rightarrow> False
      | Some dot \<Rightarrow>
          if dot = 0 then False
          else
            (let rest = drop (Suc dot) name in
             if 16 \<le> length rest then False
             else
               (let ext = map c_tolower rest in
                if ext = ''png'' then True
                else if ext = ''jpg'' then True
                else if ext = ''jpeg'' then True
                else if ext = ''gif'' then True
                else if ext = ''bmp'' then True
                else if ext = ''tif'' then True
                else if ext = ''tiff'' then True
                else False)))"

subsection \<open>\<open>loadAttachmentsDir\<close>\<close>

text \<open>
  The file system is a parameter: \<open>readdir\<close> is the list of names \<open>opendir\<close> and the
  successive \<open>readdir\<close> calls yield (\<open>None\<close> when the directory cannot be opened, where
  the source exits with status 1), and \<open>stat\<close> maps a path to \<open>None\<close> when the call fails
  and otherwise to whether the file is regular and to its size.
\<close>

fun loadEntries :: "(string \<Rightarrow> (bool \<times> int) option) \<Rightarrow> string \<Rightarrow> string list \<Rightarrow> AttachmentList \<Rightarrow> AttachmentList" where
  "loadEntries stat dirPath [] list = list"
| "loadEntries stat dirPath (d_name # ents) list =
     (if d_name = ''.'' \<or> d_name = ''..'' then loadEntries stat dirPath ents list
      else
        (let path = snprintf_s MaxPathLen (dirPath @ ''/'' @ d_name) in
         case stat path of
           None \<Rightarrow> loadEntries stat dirPath ents list
         | Some (isreg, st_size) \<Rightarrow>
             if \<not> isreg then loadEntries stat dirPath ents list
             else loadEntries stat dirPath ents
                    (list @ [\<lparr>fileName = snprintf_s MaxPathLen d_name, fullPath = snprintf_s MaxPathLen path,
                               fileSize = st_size, used = False\<rparr>])))"

definition loadAttachmentsDir ::
  "(string \<Rightarrow> string list option) \<Rightarrow> (string \<Rightarrow> (bool \<times> int) option) \<Rightarrow> string \<Rightarrow> AttachmentList \<Rightarrow> AttachmentList option" where
  "loadAttachmentsDir readdir stat dirPath list =
     (case readdir dirPath of
        None \<Rightarrow> None
      | Some ents \<Rightarrow> Some (loadEntries stat dirPath ents list))"

subsection \<open>\<open>findAttachmentByExactName\<close> and \<open>findAttachmentBySize\<close>\<close>

text \<open>
  Each \<open>for\<close> loop is a recursion over \<open>items[i..count)\<close> that carries \<open>i\<close>; the result is
  the index as an \<open>int\<close>, or \<open>-1\<close>.
\<close>

fun nameLoop :: "AttachmentList \<Rightarrow> nat \<Rightarrow> string \<Rightarrow> int" where
  "nameLoop [] i name = -1"
| "nameLoop (x # xs) i name =
     (if used x then nameLoop xs (Suc i) name
      else if fileName x = name then int i
      else nameLoop xs (Suc i) name)"

definition findAttachmentByExactName :: "AttachmentList \<Rightarrow> string \<Rightarrow> int" where
  "findAttachmentByExactName list name = nameLoop list 0 name"

fun sizeImageLoop :: "AttachmentList \<Rightarrow> nat \<Rightarrow> int \<Rightarrow> int option" where
  "sizeImageLoop [] i sz = None"
| "sizeImageLoop (x # xs) i sz =
     (if used x then sizeImageLoop xs (Suc i) sz
      else if fileSize x = sz \<and> hasImageExtension (fileName x) then Some (int i)
      else sizeImageLoop xs (Suc i) sz)"

fun sizeLoop :: "AttachmentList \<Rightarrow> nat \<Rightarrow> int \<Rightarrow> int" where
  "sizeLoop [] i sz = -1"
| "sizeLoop (x # xs) i sz =
     (if used x then sizeLoop xs (Suc i) sz
      else if fileSize x = sz then int i
      else sizeLoop xs (Suc i) sz)"

definition findAttachmentBySize :: "AttachmentList \<Rightarrow> int \<Rightarrow> bool \<Rightarrow> int" where
  "findAttachmentBySize list sz preferImage =
     (case (if preferImage then sizeImageLoop list 0 sz else None) of
        Some i \<Rightarrow> i
      | None \<Rightarrow> sizeLoop list 0 sz)"

section \<open>\<open>parseAttachmentLine\<close>\<close>

text \<open>
  \<open>sscanf(rest, "%lld", &bytesVal)\<close>: white space is skipped, then an optional sign and
  a non-empty run of decimal digits are converted. Without a digit nothing is stored
  (\<open>NoConversion\<close>). A number outside the range of \<open>long long\<close> is \<open>OutOfRange\<close>: the
  C standard leaves the behaviour of the conversion undefined there.
\<close>

datatype scanned = NoConversion | Converted int | OutOfRange

definition digitsValue :: "string \<Rightarrow> int" where
  "digitsValue ds = foldl (\<lambda>acc d. 10 * acc + (int (of_char d) - 48)) 0 ds"

definition sscanf_lld :: "string \<Rightarrow> scanned" where
  "sscanf_lld s =
     (let t = dropWhile c_isspace s;
          neg = (t \<noteq> [] \<and> hd t = CHR ''-'');
          u = (if t \<noteq> [] \<and> (hd t = CHR ''-'' \<or> hd t = CHR ''+'') then tl t else t);
          ds = takeWhile c_isdigit u in
      if ds = [] then NoConversion
      else
        (let v = (if neg then - digitsValue ds else digitsValue ds) in
         if - (2 ^ 63) \<le> v \<and> v < 2 ^ 63 then Converted v else OutOfRange))"

record AttachmentRef =
  outName :: string
  outMime :: string
  outBytes :: int
  outHasName :: bool

definition noRef :: AttachmentRef where
  "noRef = \<lparr>outName = [], outMime = [], outBytes = -1, outHasName = False\<rparr>"

text \<open>
  The four output parameters are returned as a record; every early \<open>return\<close> of the
  source returns what has been stored so far. \<open>None\<close> is the undefined conversion of
  \<open>sscanf\<close>.
\<close>

definition parseAttachmentLine :: "string \<Rightarrow> nat \<Rightarrow> nat \<Rightarrow> AttachmentRef option" where
  "parseAttachmentLine line outNameCap outMimeCap =
     (if \<not> startsWith line ''Attachment:'' then Some noRef
      else
        (let p = dropWhile c_isspace (drop (length ''Attachment:'') line) in
         case strchr p (CHR ''('') of
           None \<Rightarrow> Some noRef
         | Some paren \<Rightarrow>
             (let nameLen = (if MaxPathLen \<le> paren then MaxPathLen - 1 else paren);
                  namePart = trimRight (take nameLen p);
                  r1 = (if namePart \<noteq> ''no filename'' \<and> namePart \<noteq> []
                        then noRef\<lparr>outHasName := True, outName := snprintf_s outNameCap namePart\<rparr>
                        else noRef);
                  inside = drop (Suc paren) p in
              case strchr inside (CHR '')'') of
                None \<Rightarrow> Some r1
              | Some endParen \<Rightarrow>
                  (let innerLen = (if MaxPathLen \<le> endParen then MaxPathLen - 1 else endParen);
                       inner = trimRight (take innerLen inside) in
                   case strchr inner (CHR '','') of
                     None \<Rightarrow> Some r1
                   | Some comma \<Rightarrow>
                       (let rest = dropWhile c_isspace (drop (Suc comma) inner);
                            mime = trimRight (take comma inner);
                            r2 = r1\<lparr>outMime := snprintf_s outMimeCap mime\<rparr> in
                        case sscanf_lld rest of
                          NoConversion \<Rightarrow> Some r2
                        | Converted bytesVal \<Rightarrow> Some (r2\<lparr>outBytes := bytesVal\<rparr>)
                        | OutOfRange \<Rightarrow> None)))))"

definition isImageMime :: "string \<Rightarrow> bool" where
  "isImageMime mime = startsWith mime ''image/''"

section \<open>The output fragments\<close>

definition writeImageInclude :: "string \<Rightarrow> string" where
  "writeImageInclude relPath =
     (nl # bs # ''par'' @ bs # ''noindent'' @ [nl])
     @ (bs # ''includegraphics[width='' @ bs # ''linewidth,height=0.9'' @ bs # ''textheight,keepaspectratio]{''
          @ bs # ''detokenize{'')
     @ relPath
     @ (''}}'' @ [nl])
     @ (bs # ''par'' @ bs # ''medskip'' @ [nl, nl])"

definition writeNonImageAttachment :: "string \<Rightarrow> string" where
  "writeNonImageAttachment relPath =
     (nl # bs # ''begin{quote}'' @ [nl])
     @ (bs # ''textbf{Attachment:} '' @ bs # ''detokenize{'')
     @ relPath
     @ (''}'' @ [nl])
     @ (bs # ''end{quote}'' @ [nl, nl])"

definition unmatchedOpen :: string where
  "unmatchedOpen = (nl # bs # ''begin{quote}'' @ [nl]) @ (bs # ''textbf{Unmatched attachment placeholder:} '')"

definition unmatchedClose :: string where
  "unmatchedClose = bs # ''end{quote}'' @ [nl, nl]"

definition lineBreak :: string where
  "lineBreak = [bs, bs, nl]"

definition paragraphBreak :: string where
  "paragraphBreak = [nl, nl]"

section \<open>\<open>stripPhoneFromFromLine\<close>\<close>

definition stripPhoneFromFromLine :: "string \<Rightarrow> string" where
  "stripPhoneFromFromLine line =
     (case strchr line (CHR '':'') of
        None \<Rightarrow> line
      | Some colon \<Rightarrow>
          (case strchr (drop colon line) (CHR ''('') of
             None \<Rightarrow> line
           | Some k \<Rightarrow> trimRight (take (colon + k) line)))"

section \<open>\<open>main\<close>\<close>

subsection \<open>The output path\<close>

text \<open>
  \<open>outputPath\<close> is an array of \<open>MaxPathLen\<close> bytes. In the first branch \<open>strcat\<close> stores
  the four bytes of the extension and a terminator after \<open>baseLen\<close> bytes; when they do not
  fit, it writes beyond the array, which is \<open>None\<close>. In the second branch \<open>snprintf\<close> cuts
  the result to the array.
\<close>

definition outputPath :: "string \<Rightarrow> string option" where
  "outputPath inputPath =
     (case strrchr inputPath (CHR ''.'') of
        None \<Rightarrow> Some (snprintf_s MaxPathLen (inputPath @ ''.tex''))
      | Some lastDot \<Rightarrow>
          if lastDot \<noteq> 0 then
            (let baseLen = (if MaxPathLen \<le> lastDot then MaxPathLen - 5 else lastDot) in
             if MaxPathLen < baseLen + 5 then None
             else Some (take baseLen inputPath @ ''.tex''))
          else Some (snprintf_s MaxPathLen (inputPath @ ''.tex'')))"

subsection \<open>Resolving a reference\<close>

text \<open>The two \<open>if\<close> statements that compute \<open>idx\<close> from the parsed reference.\<close>

definition resolveIdx :: "AttachmentList \<Rightarrow> AttachmentRef \<Rightarrow> int" where
  "resolveIdx list r =
     (let idx = (if outHasName r then findAttachmentByExactName list (outName r) else -1) in
      if idx < 0 \<and> 0 \<le> outBytes r
      then findAttachmentBySize list (outBytes r) (isImageMime (outMime r))
      else idx)"

subsection \<open>The body of the line loop\<close>

text \<open>
  One iteration of the \<open>while (fgets ...)\<close> loop: from the catalog and the string
  \<open>fgets\<close> stored in \<open>line\<close> to the catalog afterwards, the bytes written to \<open>out\<close>, and
  the catalog index the line was bound to, if any (the local \<open>idx\<close> when it is not
  negative). \<open>None\<close> is an iteration whose behaviour the C standard leaves undefined.
\<close>

definition processLine :: "AttachmentList \<Rightarrow> string \<Rightarrow> (AttachmentList \<times> string \<times> nat option) option" where
  "processLine list buf =
     (let line = trimRight buf in
      if startsWithIgnoreCase line ''Type:'' then Some (list, [], None)
      else if startsWithIgnoreCase line ''Received:'' then Some (list, [], None)
      else
        (let line = (if startsWithIgnoreCase line ''From:'' then stripPhoneFromFromLine line else line) in
         if startsWith line ''Attachment:'' then
           (case parseAttachmentLine line MaxPathLen 128 of
              None \<Rightarrow> None
            | Some r \<Rightarrow>
                (let idx = resolveIdx list r in
                 if 0 \<le> idx then
                   (let i = nat idx;
                        relPath = snprintf_s MaxPathLen (''attachments/'' @ fileName (list ! i)) in
                    Some (list[i := (list ! i)\<lparr>used := True\<rparr>],
                          (if isImageMime (outMime r) \<or> hasImageExtension (fileName (list ! i))
                           then writeImageInclude relPath
                           else writeNonImageAttachment relPath),
                          Some i))
                 else
                   map_option (\<lambda>e. (list, unmatchedOpen @ e @ unmatchedClose, None))
                     (writeLatexEscaped line)))
         else
           (let line = trimRight line in
            if line = [] then Some (list, paragraphBreak, None)
            else map_option (\<lambda>e. (list, e @ lineBreak, None)) (writeLatexEscaped line))))"

text \<open>
  The loop over the strings \<open>fgets\<close> yields: outputs are appended in order, the bound
  indices are collected in order.
\<close>

fun processLines :: "AttachmentList \<Rightarrow> string list \<Rightarrow> (AttachmentList \<times> string \<times> nat list) option" where
  "processLines list [] = Some (list, [], [])"
| "processLines list (buf # bufs) =
     (case processLine list buf of
        None \<Rightarrow> None
      | Some (list1, out1, m) \<Rightarrow>
          (case processLines list1 bufs of
             None \<Rightarrow> None
           | Some (list2, out2, ms) \<Rightarrow>
               Some (list2, out1 @ out2, (case m of None \<Rightarrow> ms | Some i \<Rightarrow> i # ms))))"

section \<open>Notions the claims are stated with\<close>

text \<open>
  A multi-byte UTF-8 sequence has a lead byte of the form \<open>110xxxxx\<close>, \<open>1110xxxx\<close> or
  \<open>11110xxx\<close> followed by one, two or three continuation bytes \<open>10xxxxxx\<close>. Every
  well-formed multi-byte sequence of the standard has this shape.
\<close>

definition isContinuation :: "char \<Rightarrow> bool" where
  "isContinuation c = ((of_char c :: 8 word) AND 0xC0 = 0x80)"

definition utf8Sequence :: "string \<Rightarrow> bool" where
  "utf8Sequence u =
     (case u of
        [] \<Rightarrow> False
      | c # cs \<Rightarrow>
          (let w = (of_char c :: 8 word) in
           (w AND 0xE0 = 0xC0 \<and> length cs = 1 \<or> w AND 0xF0 = 0xE0 \<and> length cs = 2 \<or> w AND 0xF8 = 0xF0 \<and> length cs = 3)
           \<and> list_all isContinuation cs))"

text \<open>
  Every byte with the high bit set is followed, before the end of the string, by the
  bytes that \<open>utf8CharLen\<close> counts for it.
\<close>

fun utf8Complete :: "string \<Rightarrow> bool" where
  "utf8Complete [] = True"
| "utf8Complete (c # cs) = (((of_char c :: nat) < 128 \<or> utf8CharLen c \<le> length (c # cs)) \<and> utf8Complete cs)"

text \<open>
  What one iteration of the escaping loop does: it advances over \<open>utf8CharLen\<close> bytes
  of the string and writes the replacement of an ASCII byte, or the bytes it advanced
  over between the delimiters of the emoji command.
\<close>

definition stepOf :: "string \<times> string \<Rightarrow> bool" where
  "stepOf st = (case st of (consumed, written) \<Rightarrow>
      consumed \<noteq> [] \<and> length consumed = utf8CharLen (hd consumed) \<and>
      written = (if (of_char (hd consumed) :: nat) < 128 then escapeAscii (hd consumed)
                 else emojiOpen @ consumed @ emojiClose))"

text \<open>
  The escaping contract in the words of the specification: each reserved ASCII byte has a
  replacement and every other ASCII byte stands for itself; a byte with the high bit set
  begins a sequence of two, three or four bytes according to its leading bits, or of one
  byte otherwise, and the whole sequence is wrapped in the emoji command.
\<close>

definition specReplacement :: "char \<Rightarrow> string" where
  "specReplacement c =
     (case map_of
        [(bs, bs # ''textbackslash{}''), (CHR ''{'', [bs, CHR ''{'']), (CHR ''}'', [bs, CHR ''}'']),
         (CHR ''#'', [bs, CHR ''#'']), (CHR ''$'', [bs, CHR ''$'']), (CHR ''%'', [bs, CHR ''%'']),
         (CHR ''&'', [bs, CHR ''&'']), (CHR ''_'', [bs, CHR ''_'']),
         (CHR ''^'', bs # ''textasciicircum{}''), (CHR ''~'', bs # ''textasciitilde{}'')] c of
        Some r \<Rightarrow> r
      | None \<Rightarrow> [c])"

definition specSequenceLength :: "char \<Rightarrow> nat" where
  "specSequenceLength c =
     (let n = (of_char c :: nat) in
      if 192 \<le> n \<and> n \<le> 223 then 2
      else if 224 \<le> n \<and> n \<le> 239 then 3
      else if 240 \<le> n \<and> n \<le> 247 then 4
      else 1)"

function specEscaped :: "string \<Rightarrow> string" where
  "specEscaped [] = []"
| "specEscaped (c # cs) =
     (if (of_char c :: nat) < 128 then specReplacement c @ specEscaped cs
      else bs # ''emoji{'' @ take (specSequenceLength c) (c # cs) @ ''}''
             @ specEscaped (drop (specSequenceLength c) (c # cs)))"
  by pat_completeness auto
termination
  by (relation "measure length") (auto simp: specSequenceLength_def Let_def)

definition cafe :: string where
  "cafe = ''caf'' @ [CHR 0xC3, CHR 0xA9] @ ''_1''"

section \<open>Concrete catalogs and references\<close>

definition entryNotes :: AttachmentFile where
  "entryNotes = \<lparr>fileName = ''notes.pdf'', fullPath = ''./attachments/notes.pdf'', fileSize = 77, used = False\<rparr>"

definition entryPhoto :: AttachmentFile where
  "entryPhoto = \<lparr>fileName = ''photo.jpg'', fullPath = ''./attachments/photo.jpg'', fileSize = 1024, used = False\<rparr>"

definition refNotes :: AttachmentRef where
  "refNotes = \<lparr>outName = ''notes.pdf'', outMime = ''image/jpeg'', outBytes = 1024, outHasName = True\<rparr>"

definition entryImg :: AttachmentFile where
  "entryImg = \<lparr>fileName = ''IMG_0001.jpg'', fullPath = ''./attachments/IMG_0001.jpg'', fileSize = 439593, used = False\<rparr>"

definition entryImg2 :: AttachmentFile where
  "entryImg2 = \<lparr>fileName = ''IMG_0002.jpg'', fullPath = ''./attachments/IMG_0002.jpg'', fileSize = 439593, used = False\<rparr>"

text \<open>
  A directory listing that yields the name \<open>scan.pdf\<close> twice, a \<open>stat\<close> that reports
  a regular file of 10 bytes for every path, and the entry loaded for that name.
\<close>

definition dupDir :: "string \<Rightarrow> string list option" where
  "dupDir dirPath = Some [''.'', ''..'', ''scan.pdf'', ''scan.pdf'']"

definition dupStat :: "string \<Rightarrow> (bool \<times> int) option" where
  "dupStat path = Some (True, 10)"

definition dupEntry :: AttachmentFile where
  "dupEntry = \<lparr>fileName = ''scan.pdf'', fullPath = ''./attachments/scan.pdf'', fileSize = 10, used = False\<rparr>"

definition accentLine :: string where
  "accentLine = ''Attachment: caf'' @ [CHR 0xC3, CHR 0xA9] @ ''_1.pdf (application/pdf, 1024 bytes)''"

definition accentRef :: AttachmentRef where
  "accentRef = \<lparr>outName = ''caf'' @ [CHR 0xC3, CHR 0xA9] @ ''_1.pdf'', outMime = ''application/pdf'',
                 outBytes = 1024, outHasName = True\<rparr>"

section \<open>The name and size searches\<close>

lemma nameLoop_cases:
  "(nameLoop xs i name = -1 \<and> (\<forall>x\<in>set xs. used x \<or> fileName x \<noteq> name)) \<or>
   (\<exists>k<length xs. nameLoop xs i name = int (i + k) \<and> \<not> used (xs ! k) \<and> fileName (xs ! k) = name \<and>
       (\<forall>j<k. used (xs ! j) \<or> fileName (xs ! j) \<noteq> name))"
proof (induction xs arbitrary: i)
  case Nil
  show ?case by simp
next
  case (Cons x xs)
  show ?case
  proof (cases "\<not> used x \<and> fileName x = name")
    case True
    then have "nameLoop (x # xs) i name = int (i + 0) \<and> \<not> used ((x # xs) ! 0) \<and> fileName ((x # xs) ! 0) = name \<and>
       (\<forall>j<0. used ((x # xs) ! j) \<or> fileName ((x # xs) ! j) \<noteq> name)" by simp
    then show ?thesis by (intro disjI2 exI[of _ 0]) simp
  next
    case False
    then have step: "nameLoop (x # xs) i name = nameLoop xs (Suc i) name" by auto
    from Cons.IH[of "Suc i"] show ?thesis
    proof
      assume "nameLoop xs (Suc i) name = -1 \<and> (\<forall>x\<in>set xs. used x \<or> fileName x \<noteq> name)"
      with False step show ?thesis by auto
    next
      assume "\<exists>k<length xs. nameLoop xs (Suc i) name = int (Suc i + k) \<and> \<not> used (xs ! k) \<and> fileName (xs ! k) = name \<and>
       (\<forall>j<k. used (xs ! j) \<or> fileName (xs ! j) \<noteq> name)"
      then obtain k where k: "k < length xs" "nameLoop xs (Suc i) name = int (Suc i + k)" "\<not> used (xs ! k)"
        "fileName (xs ! k) = name" "\<forall>j<k. used (xs ! j) \<or> fileName (xs ! j) \<noteq> name" by blast
      have "\<forall>j<Suc k. used ((x # xs) ! j) \<or> fileName ((x # xs) ! j) \<noteq> name"
        using k(5) False by (auto simp: less_Suc_eq_0_disj)
      with k step show ?thesis
        by (intro disjI2 exI[of _ "Suc k"]) simp
    qed
  qed
qed

lemma findByName_cases:
  "(findAttachmentByExactName list name = -1 \<and> (\<forall>x\<in>set list. used x \<or> fileName x \<noteq> name)) \<or>
   (\<exists>k<length list. findAttachmentByExactName list name = int k \<and> \<not> used (list ! k) \<and> fileName (list ! k) = name \<and>
       (\<forall>j<k. used (list ! j) \<or> fileName (list ! j) \<noteq> name))"
  using nameLoop_cases[of list 0 name] by (simp add: findAttachmentByExactName_def)

lemma sizeLoop_cases:
  "(sizeLoop xs i sz = -1 \<and> (\<forall>x\<in>set xs. used x \<or> fileSize x \<noteq> sz)) \<or>
   (\<exists>k<length xs. sizeLoop xs i sz = int (i + k) \<and> \<not> used (xs ! k) \<and> fileSize (xs ! k) = sz)"
proof (induction xs arbitrary: i)
  case Nil
  show ?case by simp
next
  case (Cons x xs)
  show ?case
  proof (cases "\<not> used x \<and> fileSize x = sz")
    case True
    then have "sizeLoop (x # xs) i sz = int (i + 0) \<and> \<not> used ((x # xs) ! 0) \<and> fileSize ((x # xs) ! 0) = sz" by simp
    then show ?thesis by (intro disjI2 exI[of _ 0]) simp
  next
    case False
    then have step: "sizeLoop (x # xs) i sz = sizeLoop xs (Suc i) sz" by auto
    from Cons.IH[of "Suc i"] show ?thesis
    proof
      assume "sizeLoop xs (Suc i) sz = -1 \<and> (\<forall>x\<in>set xs. used x \<or> fileSize x \<noteq> sz)"
      with False step show ?thesis by auto
    next
      assume "\<exists>k<length xs. sizeLoop xs (Suc i) sz = int (Suc i + k) \<and> \<not> used (xs ! k) \<and> fileSize (xs ! k) = sz"
      then obtain k where k: "k < length xs" "sizeLoop xs (Suc i) sz = int (Suc i + k)" "\<not> used (xs ! k)"
        "fileSize (xs ! k) = sz" by blast
      with step show ?thesis
        by (intro disjI2 exI[of _ "Suc k"]) simp
    qed
  qed
qed

lemma sizeImageLoop_cases:
  "sizeImageLoop xs i sz = None \<or>
   (\<exists>k<length xs. sizeImageLoop xs i sz = Some (int (i + k)) \<and> \<not> used (xs ! k) \<and> fileSize (xs ! k) = sz
       \<and> hasImageExtension (fileName (xs ! k)))"
proof (induction xs arbitrary: i)
  case Nil
  show ?case by simp
next
  case (Cons x xs)
  show ?case
  proof (cases "\<not> used x \<and> fileSize x = sz \<and> hasImageExtension (fileName x)")
    case True
    then have "sizeImageLoop (x # xs) i sz = Some (int (i + 0)) \<and> \<not> used ((x # xs) ! 0) \<and> fileSize ((x # xs) ! 0) = sz
       \<and> hasImageExtension (fileName ((x # xs) ! 0))" by simp
    then show ?thesis by (intro disjI2 exI[of _ 0]) simp
  next
    case False
    then have step: "sizeImageLoop (x # xs) i sz = sizeImageLoop xs (Suc i) sz" by auto
    from Cons.IH[of "Suc i"] show ?thesis
    proof
      assume "sizeImageLoop xs (Suc i) sz = None"
      with step show ?thesis by simp
    next
      assume "\<exists>k<length xs. sizeImageLoop xs (Suc i) sz = Some (int (Suc i + k)) \<and> \<not> used (xs ! k) \<and> fileSize (xs ! k) = sz
         \<and> hasImageExtension (fileName (xs ! k))"
      then obtain k where k: "k < length xs" "sizeImageLoop xs (Suc i) sz = Some (int (Suc i + k))" "\<not> used (xs ! k)"
        "fileSize (xs ! k) = sz" "hasImageExtension (fileName (xs ! k))" by blast
      with step show ?thesis
        by (intro disjI2 exI[of _ "Suc k"]) simp
    qed
  qed
qed

lemma findBySize_cases:
  "(findAttachmentBySize list sz pref = -1 \<and> (\<forall>x\<in>set list. used x \<or> fileSize x \<noteq> sz)) \<or>
   (\<exists>k<length list. findAttachmentBySize list sz pref = int k \<and> \<not> used (list ! k) \<and> fileSize (list ! k) = sz)"
proof (cases "if pref then sizeImageLoop list 0 sz else None")
  case None
  then have "findAttachmentBySize list sz pref = sizeLoop list 0 sz"
    by (simp add: findAttachmentBySize_def)
  with sizeLoop_cases[of list 0 sz] show ?thesis by simp
next
  case (Some v)
  then have v: "findAttachmentBySize list sz pref = v" "sizeImageLoop list 0 sz = Some v"
    by (auto simp: findAttachmentBySize_def split: if_splits)
  with sizeImageLoop_cases[of list 0 sz] show ?thesis by auto
qed

lemma resolveIdx_cases:
  "(resolveIdx list r = -1 \<and>
      (outHasName r \<longrightarrow> (\<forall>x\<in>set list. used x \<or> fileName x \<noteq> outName r)) \<and>
      (0 \<le> outBytes r \<longrightarrow> (\<forall>x\<in>set list. used x \<or> fileSize x \<noteq> outBytes r))) \<or>
   (\<exists>k<length list. resolveIdx list r = int k \<and> \<not> used (list ! k) \<and>
      (outHasName r \<and> fileName (list ! k) = outName r \<or> 0 \<le> outBytes r \<and> fileSize (list ! k) = outBytes r))"
proof (cases "outHasName r \<and> findAttachmentByExactName list (outName r) \<noteq> -1")
  case True
  with findByName_cases[of list "outName r"] obtain k where
    k: "k < length list" "findAttachmentByExactName list (outName r) = int k" "\<not> used (list ! k)"
       "fileName (list ! k) = outName r" by blast
  with True have "resolveIdx list r = int k" by (simp add: resolveIdx_def)
  with k True show ?thesis by blast
next
  case False
  then have nm: "outHasName r \<longrightarrow> (\<forall>x\<in>set list. used x \<or> fileName x \<noteq> outName r)"
    using findByName_cases[of list "outName r"] by auto
  from False have idx: "(if outHasName r then findAttachmentByExactName list (outName r) else -1) = -1" by auto
  show ?thesis
  proof (cases "0 \<le> outBytes r")
    case True
    then have eq: "resolveIdx list r = findAttachmentBySize list (outBytes r) (isImageMime (outMime r))"
      using idx by (simp add: resolveIdx_def)
    from findBySize_cases[of list "outBytes r" "isImageMime (outMime r)"] show ?thesis
      using eq nm True by auto
  next
    case False
    then have "resolveIdx list r = -1" using idx by (simp add: resolveIdx_def)
    with nm False show ?thesis by simp
  qed
qed

lemma processLine_catalog:
  assumes "processLine list buf = Some (list', out, m)"
  shows "(m = None \<and> list' = list) \<or>
         (\<exists>i<length list. m = Some i \<and> \<not> used (list ! i) \<and> list' = list[i := (list ! i)\<lparr>used := True\<rparr>])"
proof -
  define line where "line = (if startsWithIgnoreCase (trimRight buf) ''From:'' then stripPhoneFromFromLine (trimRight buf) else trimRight buf)"
  show ?thesis
  proof (cases "\<not> startsWithIgnoreCase (trimRight buf) ''Type:'' \<and> \<not> startsWithIgnoreCase (trimRight buf) ''Received:''
                 \<and> startsWith line ''Attachment:''")
    case False
    with assms show ?thesis
      by (auto simp: processLine_def Let_def line_def split: if_splits)
  next
    case True
    with assms obtain r where r: "parseAttachmentLine line MaxPathLen 128 = Some r"
      by (auto simp: processLine_def Let_def line_def split: option.splits)
    from resolveIdx_cases[of list r] show ?thesis
    proof
      assume "resolveIdx list r = -1 \<and>
      (outHasName r \<longrightarrow> (\<forall>x\<in>set list. used x \<or> fileName x \<noteq> outName r)) \<and>
      (0 \<le> outBytes r \<longrightarrow> (\<forall>x\<in>set list. used x \<or> fileSize x \<noteq> outBytes r))"
      then have "resolveIdx list r = -1" by simp
      with assms True r show ?thesis
        by (auto simp: processLine_def Let_def line_def)
    next
      assume "\<exists>k<length list. resolveIdx list r = int k \<and> \<not> used (list ! k) \<and>
      (outHasName r \<and> fileName (list ! k) = outName r \<or> 0 \<le> outBytes r \<and> fileSize (list ! k) = outBytes r)"
      then obtain k where k: "k < length list" "resolveIdx list r = int k" "\<not> used (list ! k)" by blast
      with assms True r have "m = Some k \<and> list' = list[k := (list ! k)\<lparr>used := True\<rparr>]"
        by (auto simp: processLine_def Let_def line_def)
      with k show ?thesis by blast
    qed
  qed
qed

section \<open>The escaping loop\<close>

lemma lead_patterns:
  "\<forall>c::char. (((of_char c :: 8 word) AND 0xE0 = 0xC0) \<longrightarrow> utf8CharLen c = 2 \<and> 128 \<le> (of_char c :: nat))
     \<and> (((of_char c :: 8 word) AND 0xF0 = 0xE0) \<longrightarrow> utf8CharLen c = 3 \<and> 128 \<le> (of_char c :: nat))
     \<and> (((of_char c :: 8 word) AND 0xF8 = 0xF0) \<longrightarrow> utf8CharLen c = 4 \<and> 128 \<le> (of_char c :: nat))"
  by code_simp

lemma utf8CharLen_pos: "0 < utf8CharLen c"
  by (simp add: utf8CharLen_def Let_def)

lemma utf8CharLen_ascii: "\<forall>c::char. (of_char c :: nat) < 128 \<longrightarrow> utf8CharLen c = 1"
  by code_simp


lemma utf8Complete_nth:
  "utf8Complete s \<longleftrightarrow> (\<forall>i<length s. 128 \<le> (of_char (s ! i) :: nat) \<longrightarrow> i + utf8CharLen (s ! i) \<le> length s)"
proof (induction s)
  case Nil
  show ?case by simp
next
  case (Cons c cs)
  show ?case
    by (auto simp: Cons.IH All_less_Suc2 not_less)
qed

lemma utf8Complete_drop: "utf8Complete s \<Longrightarrow> utf8Complete (drop n s)"
  by (induction s arbitrary: n) (auto simp: drop_Cons split: nat.splits)

lemma escapeSteps_defined: "utf8Complete s \<Longrightarrow> \<exists>steps. escapeSteps s = Some steps"
proof (induction s rule: escapeSteps.induct)
  case 1
  show ?case by simp
next
  case (2 c cs)
  show ?case
  proof (cases "(of_char c :: nat) < 0x80")
    case True
    with 2 show ?thesis by auto
  next
    case False
    with "2.prems" have len: "utf8CharLen c \<le> length (c # cs)" by simp
    have "utf8Complete (drop (utf8CharLen c) (c # cs))"
      using "2.prems" by (rule utf8Complete_drop)
    with "2.IH"(2)[OF False refl] len obtain steps where
      "escapeSteps (drop (utf8CharLen c) (c # cs)) = Some steps" by (auto simp: not_less)
    with False len show ?thesis by (simp add: Let_def not_less)
  qed
qed

lemma escapeSteps_sound:
  "escapeSteps s = Some steps \<Longrightarrow> concat (map fst steps) = s \<and> (\<forall>st\<in>set steps. stepOf st)"
proof (induction s arbitrary: steps rule: escapeSteps.induct)
  case 1
  then show ?case by simp
next
  case (2 c cs)
  show ?case
  proof (cases "(of_char c :: nat) < 0x80")
    case True
    with "2.prems" obtain rest where r: "escapeSteps cs = Some rest" "steps = ([c], escapeAscii c) # rest"
      by auto
    from "2.IH"(1)[OF True r(1)] r(2) True utf8CharLen_ascii show ?thesis
      by (simp add: stepOf_def)
  next
    case False
    define len where "len = utf8CharLen c"
    from "2.prems" False have len: "len \<le> length (c # cs)"
      by (auto simp: Let_def len_def split: if_splits)
    with "2.prems" False obtain rest where r: "escapeSteps (drop len (c # cs)) = Some rest"
       "steps = (take len (c # cs), emojiOpen @ take len (c # cs) @ emojiClose) # rest"
      by (auto simp: Let_def len_def)
    have pos: "0 < len" by (simp add: len_def utf8CharLen_pos)
    then have hd: "take len (c # cs) \<noteq> []" "hd (take len (c # cs)) = c"
      by (cases len; simp)+
    have l: "length (take len (c # cs)) = len" using len by simp
    have ih: "concat (map fst rest) = drop len (c # cs) \<and> (\<forall>st\<in>set rest. stepOf st)"
      using "2.IH"(2)[OF False len_def _ r(1)] len by (simp add: not_less)
    have "stepOf (take len (c # cs), emojiOpen @ take len (c # cs) @ emojiClose)"
      unfolding stepOf_def using hd l False by (simp add: len_def)
    moreover have "concat (map fst steps) = take len (c # cs) @ drop len (c # cs)"
      using r(2) ih by simp
    ultimately show ?thesis using ih r(2) by simp
  qed
qed

lemma escapeSteps_append:
  "escapeSteps a = Some sa \<Longrightarrow> escapeSteps (a @ r) = map_option ((@) sa) (escapeSteps r)"
proof (induction a arbitrary: sa rule: escapeSteps.induct)
  case 1
  then show ?case by (simp add: option.map_ident)
next
  case (2 c cs)
  show ?case
  proof (cases "(of_char c :: nat) < 0x80")
    case True
    with "2.prems" obtain rest where r: "escapeSteps cs = Some rest" "sa = ([c], escapeAscii c) # rest"
      by auto
    from "2.IH"(1)[OF True r(1)] r(2) True show ?thesis
      by (simp add: option.map_comp comp_def)
  next
    case False
    define len where "len = utf8CharLen c"
    from "2.prems" False have len: "len \<le> length (c # cs)"
      by (auto simp: Let_def len_def split: if_splits)
    with "2.prems" False obtain rest where rr: "escapeSteps (drop len (c # cs)) = Some rest"
       "sa = (take len (c # cs), emojiOpen @ take len (c # cs) @ emojiClose) # rest"
      by (auto simp: Let_def len_def)
    have ih: "escapeSteps (drop len (c # cs) @ r) = map_option ((@) rest) (escapeSteps r)"
      using "2.IH"(2)[OF False len_def _ rr(1)] len by (simp add: not_less)
    have tk: "take len (c # cs @ r) = take len (c # cs)" "drop len (c # cs @ r) = drop len (c # cs) @ r"
      using len  by (simp_all add: take_Cons drop_Cons split: nat.splits)
    have "escapeSteps ((c # cs) @ r) =
        map_option ((#) (take len (c # cs @ r), emojiOpen @ take len (c # cs @ r) @ emojiClose))
                (escapeSteps (drop len (c # cs @ r)))"
      using False len by (simp add: Let_def len_def[symmetric])
    then show ?thesis using tk ih rr(2) by (simp add: option.map_comp comp_def)
  qed
qed

lemma utf8Sequence_lead:
  assumes "utf8Sequence u"
  shows "u \<noteq> [] \<and> \<not> (of_char (hd u) :: nat) < 128 \<and> utf8CharLen (hd u) = length u \<and> 2 \<le> length u"
proof -
  from assms obtain c cs where u: "u = c # cs" by (cases u) (auto simp: utf8Sequence_def)
  from assms u lead_patterns[rule_format, of c] show ?thesis
    by (auto simp: utf8Sequence_def Let_def)
qed

lemma escapeSteps_sequence:
  assumes "utf8Sequence u"
  shows "escapeSteps (u @ r) = map_option ((#) (u, emojiOpen @ u @ emojiClose)) (escapeSteps r)"
proof -
  from utf8Sequence_lead[OF assms] obtain c cs where u: "u = c # cs" and
    c: "\<not> (of_char c :: nat) < 128" "utf8CharLen c = length (c # cs)"
    by (cases u) auto
  have one: "escapeSteps u = Some [(u, emojiOpen @ u @ emojiClose)]"
    unfolding u using c by (simp add: Let_def del: length_Cons)
  show ?thesis
    unfolding escapeSteps_append[OF one] by (cases "escapeSteps r") simp_all
qed

lemma specReplacement_eq: "\<forall>c::char. specReplacement c = escapeAscii c"
  by code_simp

lemma specSequenceLength_eq: "\<forall>c::char. specSequenceLength c = utf8CharLen c"
  by code_simp

lemma escapeSteps_specEscaped:
  "escapeSteps s = Some steps \<Longrightarrow> concat (map snd steps) = specEscaped s"
proof (induction s arbitrary: steps rule: escapeSteps.induct)
  case 1
  then show ?case by simp
next
  case (2 c cs)
  show ?case
  proof (cases "(of_char c :: nat) < 0x80")
    case True
    with "2.prems" obtain rest where r: "escapeSteps cs = Some rest" "steps = ([c], escapeAscii c) # rest"
      by auto
    from "2.IH"(1)[OF True r(1)] r(2) True specReplacement_eq show ?thesis by simp
  next
    case False
    define len where "len = utf8CharLen c"
    from "2.prems" False have len: "len \<le> length (c # cs)"
      by (auto simp: Let_def len_def split: if_splits)
    with "2.prems" False obtain rest where r: "escapeSteps (drop len (c # cs)) = Some rest"
       "steps = (take len (c # cs), emojiOpen @ take len (c # cs) @ emojiClose) # rest"
      by (auto simp: Let_def len_def)
    have ih: "concat (map snd rest) = specEscaped (drop len (c # cs))"
      using "2.IH"(2)[OF False len_def _ r(1)] len by (simp add: not_less)
    have sl: "specSequenceLength c = len" using specSequenceLength_eq by (simp add: len_def)
    have "specEscaped (c # cs) = bs # ''emoji{'' @ take len (c # cs) @ ''}'' @ specEscaped (drop len (c # cs))"
      using False by (simp add: sl del: take.simps drop.simps take_Suc_Cons drop_Suc_Cons)
    moreover have "concat (map snd steps) = emojiOpen @ take len (c # cs) @ emojiClose @ concat (map snd rest)"
      using r(2) by simp
    ultimately show ?thesis using ih by (simp add: emojiOpen_def emojiClose_def)
  qed
qed

lemma writeLatexEscaped_spec:
  "writeLatexEscaped s \<noteq> None \<Longrightarrow> writeLatexEscaped s = Some (specEscaped s)"
  by (auto simp: writeLatexEscaped_def escapeSteps_specEscaped)

section \<open>The output path\<close>

lemma strrchr_None: "strrchr s c = None \<longleftrightarrow> c \<notin> set s"
  by (induction s) (auto split: option.splits)

lemma strrchr_notin: "c \<notin> set s \<Longrightarrow> strrchr s c = None"
  by (simp add: strrchr_None)

lemma strrchr_last: "c \<notin> set ext \<Longrightarrow> strrchr (base @ c # ext) c = Some (length base)"
proof (induction base)
  case Nil
  then show ?case by (simp add: strrchr_notin)
next
  case (Cons x xs)
  then show ?case by simp
qed

lemma strrchr_head: "c \<notin> set xs \<Longrightarrow> strrchr (x # xs) c = (if x = c then Some 0 else None)"
  by (simp add: strrchr_notin)

lemma outputPath_directory_dot:
  "outputPath ''../messages'' = Some ''..tex'' \<and> outputPath ''chat.d/messages'' = Some ''chat.tex''
   \<and> outputPath ''logs/.hidden'' = Some ''logs/.tex'' \<and> outputPath ''.hidden'' = Some ''.hidden.tex''"
  by code_simp

lemma outputPath_overrun:
  "outputPath (replicate 4092 (CHR ''a'') @ ''.txt'') = None"
proof -
  have "strrchr (replicate 4092 (CHR ''a'') @ CHR ''.'' # ''txt'') (CHR ''.'') = Some (length (replicate 4092 (CHR ''a'')))"
    by (rule strrchr_last) simp
  then show ?thesis by (simp add: outputPath_def MaxPathLen_def)
qed

section \<open>Trimming, markers and the dispatch of a line\<close>

lemma trimRight_append_keep:
  assumes "xs \<noteq> []" and "\<not> trimChar (last xs)"
  shows "trimRight (xs @ ys) = xs @ trimRight ys"
proof -
  from assms have keep: "dropWhile trimChar (rev xs) = rev xs"
    by (cases xs rule: rev_cases) auto
  have "dropWhile trimChar (rev ys @ rev xs) = dropWhile trimChar (rev ys) @ rev xs"
  proof (cases "\<forall>c\<in>set (rev ys). trimChar c")
    case True
    then have "dropWhile trimChar (rev ys) = []" by simp
    moreover from True have "dropWhile trimChar (rev ys @ rev xs) = dropWhile trimChar (rev xs)"
      by (intro dropWhile_append2) auto
    ultimately show ?thesis using keep by simp
  next
    case False
    then obtain c where "c \<in> set (rev ys)" "\<not> trimChar c" by blast
    then show ?thesis by (simp add: dropWhile_append1)
  qed
  then show ?thesis by (simp add: trimRight_def)
qed

lemma trimRight_idem: "trimRight (trimRight s) = trimRight s"
  by (simp add: trimRight_def)

lemma trimRight_decomp: "\<exists>suf. s = trimRight s @ suf \<and> (\<forall>c\<in>set suf. trimChar c)"
proof -
  have "rev s = takeWhile trimChar (rev s) @ dropWhile trimChar (rev s)" by simp
  then have "s = rev (dropWhile trimChar (rev s)) @ rev (takeWhile trimChar (rev s))"
    by (metis rev_append rev_rev_ident)
  moreover have "\<forall>c\<in>set (rev (takeWhile trimChar (rev s))). trimChar c"
    by (auto dest: set_takeWhileD)
  ultimately show ?thesis unfolding trimRight_def by blast
qed

lemma startsWithIgnoreCase_iff:
  "startsWithIgnoreCase s p \<longleftrightarrow> length p \<le> length s \<and> map c_tolower (take (length p) s) = map c_tolower p"
  by (induction s p rule: startsWithIgnoreCase.induct) auto

lemma startsWithIgnoreCase_same:
  "map c_tolower pre = map c_tolower q \<Longrightarrow> startsWithIgnoreCase (pre @ x) q"
proof -
  assume a: "map c_tolower pre = map c_tolower q"
  then have "length pre = length q" by (metis length_map)
  with a show ?thesis by (simp add: startsWithIgnoreCase_iff)
qed

lemma startsWithIgnoreCase_differ:
  assumes "startsWithIgnoreCase (pre @ x) q"
  shows "take (min (length pre) (length q)) (map c_tolower pre) = take (min (length pre) (length q)) (map c_tolower q)"
proof -
  let ?n = "min (length pre) (length q)"
  from assms have "map c_tolower (take (length q) (pre @ x)) = map c_tolower q"
    by (simp add: startsWithIgnoreCase_iff)
  then have "take ?n (map c_tolower (take (length q) (pre @ x))) = take ?n (map c_tolower q)" by simp
  moreover have "take ?n (map c_tolower (take (length q) (pre @ x))) = take ?n (map c_tolower pre)"
    by (simp add: take_map min_def)
  ultimately show ?thesis by simp
qed

lemma startsWith_differ:
  assumes "startsWith (pre @ x) q"
  shows "take (min (length pre) (length q)) pre = take (min (length pre) (length q)) q"
proof -
  let ?n = "min (length pre) (length q)"
  from assms have "take (length q) (pre @ x) = q" by (simp add: startsWith_def)
  then have "take ?n (take (length q) (pre @ x)) = take ?n q" by simp
  moreover have "take ?n (take (length q) (pre @ x)) = take ?n pre"
    by (simp add: min_def)
  ultimately show ?thesis by simp
qed

lemma strchr_eq:
  "strchr s c = (if c \<in> set s then Some (length (takeWhile (\<lambda>x. x \<noteq> c) s)) else None)"
  by (induction s) auto

lemma stripPhone_eq:
  assumes "CHR '':'' \<in> set pre" and "CHR ''('' \<notin> set pre"
  shows "stripPhoneFromFromLine (pre @ rest) =
           (if CHR ''('' \<in> set rest then trimRight (pre @ takeWhile (\<lambda>x. x \<noteq> CHR ''('') rest) else pre @ rest)"
proof -
  define colon where "colon = length (takeWhile (\<lambda>x. x \<noteq> CHR '':'') (pre @ rest))"
  have c1: "strchr (pre @ rest) (CHR '':'') = Some colon"
    using assms(1) by (simp add: strchr_eq colon_def)
  have "takeWhile (\<lambda>x. x \<noteq> CHR '':'') (pre @ rest) = takeWhile (\<lambda>x. x \<noteq> CHR '':'') pre"
    using assms(1) by (intro takeWhile_append1) auto
  then have cl: "colon \<le> length pre"
    by (simp add: colon_def length_takeWhile_le)
  then have dr: "drop colon (pre @ rest) = drop colon pre @ rest" by simp
  have np: "\<And>x. x \<in> set (drop colon pre) \<Longrightarrow> x \<noteq> CHR ''(''"
    using assms(2) by (metis in_set_dropD)
  show ?thesis
  proof (cases "CHR ''('' \<in> set rest")
    case False
    with np have "CHR ''('' \<notin> set (drop colon pre @ rest)" by auto
    then have "strchr (drop colon (pre @ rest)) (CHR ''('') = None"
      by (simp only: dr strchr_eq if_False)
    with c1 False show ?thesis by (simp add: stripPhoneFromFromLine_def)
  next
    case True
    define k where "k = length (takeWhile (\<lambda>x. x \<noteq> CHR ''('') (drop colon pre @ rest))"
    from True have "CHR ''('' \<in> set (drop colon pre @ rest)" by simp
    then have c2: "strchr (drop colon (pre @ rest)) (CHR ''('') = Some k"
      by (simp only: dr strchr_eq if_True k_def)
    have "takeWhile (\<lambda>x. x \<noteq> CHR ''('') (drop colon pre @ rest)
            = drop colon pre @ takeWhile (\<lambda>x. x \<noteq> CHR ''('') rest"
      using np by (intro takeWhile_append2) auto
    then have "colon + k = length pre + length (takeWhile (\<lambda>x. x \<noteq> CHR ''('') rest)"
      using cl by (simp add: k_def)
    then have "take (colon + k) (pre @ rest) = pre @ take (length (takeWhile (\<lambda>x. x \<noteq> CHR ''('') rest)) rest"
      by simp
    also have "\<dots> = pre @ takeWhile (\<lambda>x. x \<noteq> CHR ''('') rest"
      by (simp add: takeWhile_eq_take[symmetric])
    finally have "take (colon + k) (pre @ rest) = pre @ takeWhile (\<lambda>x. x \<noteq> CHR ''('') rest" .
    with c1 c2 True show ?thesis by (simp add: stripPhoneFromFromLine_def)
  qed
qed

lemma tolower_colon: "\<forall>x::char. c_tolower x = CHR '':'' \<longrightarrow> x = CHR '':''"
  by code_simp

lemma marker_last:
  assumes "map c_tolower pre = q" and "q \<noteq> []" and "last q = CHR '':''"
  shows "pre \<noteq> [] \<and> last pre = CHR '':'' \<and> \<not> trimChar (last pre) \<and> CHR '':'' \<in> set pre"
proof -
  from assms(1,2) have ne: "pre \<noteq> []" by auto
  then have "last (map c_tolower pre) = c_tolower (last pre)" by (simp add: last_map)
  with assms have "c_tolower (last pre) = CHR '':''" by simp
  with tolower_colon have l: "last pre = CHR '':''" by blast
  have "\<not> trimChar (CHR '':'')" by (simp add: trimChar_def c_isspace_def)
  with ne l show ?thesis by (metis last_in_set)
qed

lemma marker_no_paren:
  assumes "map c_tolower pre = q" and "CHR ''('' \<notin> set q"
  shows "CHR ''('' \<notin> set pre"
proof
  assume "CHR ''('' \<in> set pre"
  then have "c_tolower (CHR ''('') \<in> set (map c_tolower pre)" by simp
  moreover have "c_tolower (CHR ''('') = CHR ''(''" by (simp add: c_tolower_def)
  ultimately show False using assms by simp
qed

lemma lower_markers:
  "map c_tolower ''Type:'' = ''type:''" "map c_tolower ''Received:'' = ''received:''"
  "map c_tolower ''From:'' = ''from:''" "map c_tolower ''Attachment:'' = ''attachment:''"
  by code_simp+

lemma trimRight_takeWhile:
  "trimRight (takeWhile (\<lambda>x. x \<noteq> CHR ''('') (trimRight s)) = trimRight (takeWhile (\<lambda>x. x \<noteq> CHR ''('') s)"
proof -
  from trimRight_decomp[of s] obtain suf where s: "s = trimRight s @ suf" "\<forall>c\<in>set suf. trimChar c" by blast
  have np: "\<not> trimChar (CHR ''('')" by (simp add: trimChar_def c_isspace_def)
  show ?thesis
  proof (cases "CHR ''('' \<in> set (trimRight s)")
    case True
    then have "takeWhile (\<lambda>x. x \<noteq> CHR ''('') (trimRight s @ suf) = takeWhile (\<lambda>x. x \<noteq> CHR ''('') (trimRight s)"
      by (intro takeWhile_append1) auto
    with s(1) show ?thesis by simp
  next
    case False
    then have a: "takeWhile (\<lambda>x. x \<noteq> CHR ''('') (trimRight s) = trimRight s" by auto
    from s(2) np have "CHR ''('' \<notin> set suf" by blast
    with False s(1) have "CHR ''('' \<notin> set s" by (metis Un_iff set_append)
    then have b: "takeWhile (\<lambda>x. x \<noteq> CHR ''('') s = s" by auto
    show ?thesis unfolding a b by (rule trimRight_idem)
  qed
qed


lemma attachment_line_trim:
  assumes "startsWith buf ''Attachment:''"
  shows "\<exists>rest. buf = ''Attachment:'' @ rest \<and> trimRight buf = ''Attachment:'' @ trimRight rest"
proof -
  define n where "n = length ''Attachment:''"
  from assms have "take n buf = ''Attachment:''" by (simp only: startsWith_def n_def)
  then have b: "buf = ''Attachment:'' @ drop n buf" by (metis append_take_drop_id)
  have "trimRight (''Attachment:'' @ drop n buf) = ''Attachment:'' @ trimRight (drop n buf)"
    by (rule trimRight_append_keep) (simp_all add: trimChar_def c_isspace_def)
  with b show ?thesis by metis
qed

lemma attachment_line_dispatch:
  "\<not> startsWithIgnoreCase (''Attachment:'' @ x) ''Type:''"
  "\<not> startsWithIgnoreCase (''Attachment:'' @ x) ''Received:''"
  "\<not> startsWithIgnoreCase (''Attachment:'' @ x) ''From:''"
  "startsWith (''Attachment:'' @ x) ''Attachment:''"
  by (simp_all add: startsWith_def c_tolower_def)

lemma startsWithIgnoreCase_not:
  assumes "map c_tolower pre = lp"
    and "take (min (length lp) (length q)) lp \<noteq> take (min (length lp) (length q)) (map c_tolower q)"
  shows "\<not> startsWithIgnoreCase (pre @ x) q"
proof
  assume "startsWithIgnoreCase (pre @ x) q"
  from startsWithIgnoreCase_differ[OF this] assms(1) assms(2) show False
    by (metis length_map)
qed

lemma startsWith_not:
  assumes "map c_tolower pre = lp"
    and "take (min (length lp) (length q)) lp \<noteq> take (min (length lp) (length q)) (map c_tolower q)"
  shows "\<not> startsWith (pre @ x) q"
proof
  assume "startsWith (pre @ x) q"
  from startsWith_differ[OF this]
  have "map c_tolower (take (min (length pre) (length q)) pre) = map c_tolower (take (min (length pre) (length q)) q)"
    by simp
  then have "take (min (length pre) (length q)) (map c_tolower pre) = take (min (length pre) (length q)) (map c_tolower q)"
    by (simp only: take_map)
  with assms show False by (metis length_map)
qed

lemma processLine_prose:
  assumes "\<not> startsWithIgnoreCase (trimRight buf) ''Type:''"
    and "\<not> startsWithIgnoreCase (trimRight buf) ''Received:''"
    and "line = (if startsWithIgnoreCase (trimRight buf) ''From:'' then stripPhoneFromFromLine (trimRight buf) else trimRight buf)"
    and "\<not> startsWith line ''Attachment:''"
    and "trimRight line = line" and "line \<noteq> []"
  shows "processLine list buf = map_option (\<lambda>e. (list, e @ lineBreak, None)) (writeLatexEscaped line)"
  using assms(1,2,4,5,6) unfolding processLine_def Let_def assms(3)[symmetric] by simp

section \<open>Claims\<close>

text \<open>
  C1. When the reference carries a name and some unconsumed entry has exactly that name,
  the index computed in \<open>main\<close> is the first such entry in catalog order, whatever the
  byte count and the mime type of the reference are: with the same name, every other
  byte count and mime type give the same index. So a reference whose name is that of a
  non-image entry and whose size is that of an image entry resolves to the former.
\<close>

theorem name_match_wins:
  assumes "outHasName r"
    and "\<exists>k<length list. \<not> used (list ! k) \<and> fileName (list ! k) = outName r"
  shows "\<exists>k<length list. resolveIdx list r = int k \<and> \<not> used (list ! k) \<and> fileName (list ! k) = outName r \<and>
       (\<forall>j<k. used (list ! j) \<or> fileName (list ! j) \<noteq> outName r) \<and>
       (\<forall>b m. resolveIdx list (r\<lparr>outBytes := b, outMime := m\<rparr>) = int k)"
proof -
  from assms(2) have "\<not> (\<forall>x\<in>set list. used x \<or> fileName x \<noteq> outName r)"
    by (metis nth_mem)
  with findByName_cases[of list "outName r"]
  obtain k where k: "k < length list" "findAttachmentByExactName list (outName r) = int k" "\<not> used (list ! k)"
     "fileName (list ! k) = outName r" "\<forall>j<k. used (list ! j) \<or> fileName (list ! j) \<noteq> outName r" by blast
  have "\<And>r'. outHasName r' \<Longrightarrow> outName r' = outName r \<Longrightarrow> resolveIdx list r' = int k"
    using k(2) by (simp add: resolveIdx_def)
  with assms(1) k show ?thesis by (intro exI[of _ k]) simp
qed

text \<open>
  The reference names \<open>notes.pdf\<close>, declares an image mime type and 1024 bytes; the
  catalog holds the image \<open>photo.jpg\<close> of 1024 bytes first, which the size search
  alone returns, and then \<open>notes.pdf\<close>. The reference resolves to \<open>notes.pdf\<close>.
\<close>

theorem name_match_wins_witness:
  "outHasName refNotes \<and> isImageMime (outMime refNotes)
   \<and> \<not> hasImageExtension (fileName entryNotes) \<and> hasImageExtension (fileName entryPhoto)
   \<and> fileSize entryPhoto = outBytes refNotes
   \<and> findAttachmentBySize [entryPhoto, entryNotes] (outBytes refNotes) True = 0
   \<and> resolveIdx [entryPhoto, entryNotes] refNotes = 1"
proof -
  have h1: "outHasName refNotes" by (simp add: refNotes_def)
  have h2: "\<exists>k<length [entryPhoto, entryNotes].
      \<not> used ([entryPhoto, entryNotes] ! k) \<and> fileName ([entryPhoto, entryNotes] ! k) = outName refNotes"
    by (intro exI[of _ 1]) (simp add: refNotes_def entryNotes_def)
  from name_match_wins[OF h1 h2] obtain k where k: "k < length [entryPhoto, entryNotes]"
    "resolveIdx [entryPhoto, entryNotes] refNotes = int k"
    "fileName ([entryPhoto, entryNotes] ! k) = outName refNotes" by blast
  from k(1,3) have "k = 1" by (cases k) (auto simp: refNotes_def entryNotes_def entryPhoto_def)
  with k(2) have "resolveIdx [entryPhoto, entryNotes] refNotes = 1" by simp
  moreover have "isImageMime (outMime refNotes)" "\<not> hasImageExtension (fileName entryNotes)"
    "hasImageExtension (fileName entryPhoto)"
    "findAttachmentBySize [entryPhoto, entryNotes] (outBytes refNotes) True = 0" by code_simp+
  moreover have "fileSize entryPhoto = outBytes refNotes" by (simp add: refNotes_def entryPhoto_def)
  ultimately show ?thesis using h1 by simp
qed

text \<open>
  C3. With the catalog that holds only \<open>IMG_0001.jpg\<close> of 439593 bytes, unused, the
  line \<open>Attachment: no filename (image/jpeg, 439593 bytes)\<close>, with or without its
  newline, is bound to entry 0; the bytes written are the paragraph break, the
  \<open>includegraphics\<close> directive whose argument is \<open>attachments/IMG_0001.jpg\<close>, and the
  closing paragraph spacing; and the entry is marked used afterwards.
\<close>

theorem size_match_scenario:
  "fileName entryImg = ''IMG_0001.jpg'' \<and> fileSize entryImg = 439593 \<and> \<not> used entryImg
   \<and> processLine [entryImg] ''Attachment: no filename (image/jpeg, 439593 bytes)''
     = Some ([entryImg\<lparr>used := True\<rparr>],
             nl # bs # ''par'' @ bs # ''noindent'' @ nl # bs # ''includegraphics[width='' @ bs # ''linewidth,height=0.9''
               @ bs # ''textheight,keepaspectratio]{'' @ bs # ''detokenize{attachments/IMG_0001.jpg}}''
               @ nl # bs # ''par'' @ bs # ''medskip'' @ [nl, nl],
             Some 0)
   \<and> processLine [entryImg] (''Attachment: no filename (image/jpeg, 439593 bytes)'' @ [nl])
     = Some ([entryImg\<lparr>used := True\<rparr>],
             nl # bs # ''par'' @ bs # ''noindent'' @ nl # bs # ''includegraphics[width='' @ bs # ''linewidth,height=0.9''
               @ bs # ''textheight,keepaspectratio]{'' @ bs # ''detokenize{attachments/IMG_0001.jpg}}''
               @ nl # bs # ''par'' @ bs # ''medskip'' @ [nl, nl],
             Some 0)
   \<and> used (entryImg\<lparr>used := True\<rparr>)"
  by code_simp

text \<open>
  C5, as stated, fails: the line \<open>From: Jane Doe (+15551234567)\<close> is not emitted as
  \<open>Jane Doe\<close> followed by the forced line break.
\<close>

theorem from_line_counterexample:
  "processLine [] ''From: Jane Doe (+15551234567)'' \<noteq> Some ([], ''Jane Doe'' @ lineBreak, None)"
  by code_simp

text \<open>
  C5, amended. The line \<open>From: Jane Doe (+15551234567)\<close> is cut at the first \<open>(\<close>, its
  trailing white space is trimmed, and the remainder, which keeps the label \<open>From:\<close>, is
  emitted as prose: the output is \<open>From: Jane Doe\<close> followed by the forced line break,
  and the catalog is unchanged.
\<close>

theorem from_line_scenario:
  "processLine list ''From: Jane Doe (+15551234567)'' = Some (list, ''From: Jane Doe'' @ lineBreak, None)
   \<and> processLine list (''From: Jane Doe (+15551234567)'' @ [nl]) = Some (list, ''From: Jane Doe'' @ lineBreak, None)
   \<and> stripPhoneFromFromLine ''From: Jane Doe (+15551234567)'' = ''From: Jane Doe''"
  by code_simp

text \<open>
  C2. Over a whole run of the line loop, the indices the lines are bound to are pairwise
  distinct; each of them is the index of an entry whose flag is clear in the initial
  catalog and set in the final one; and the final catalog is the initial one in which
  exactly the flags of those entries have been set: no flag is cleared, no other flag is
  set, no entry is added, removed or otherwise changed.
\<close>

theorem consumption_exclusive:
  assumes "processLines list bufs = Some (list', out, ms)"
  shows "distinct ms \<and> length list' = length list \<and>
         (\<forall>i\<in>set ms. i < length list \<and> \<not> used (list ! i) \<and> used (list' ! i)) \<and>
         (\<forall>i<length list. list' ! i = (list ! i)\<lparr>used := (used (list ! i) \<or> i \<in> set ms)\<rparr>)"
  using assms
proof (induction bufs arbitrary: list list' out ms)
  case Nil
  then show ?case by simp
next
  case (Cons buf bufs)
  from Cons.prems obtain list1 out1 m list2 out2 ms2 where
    st: "processLine list buf = Some (list1, out1, m)"
    and rest: "processLines list1 bufs = Some (list2, out2, ms2)"
    and res: "list' = list2" "ms = (case m of None \<Rightarrow> ms2 | Some i \<Rightarrow> i # ms2)"
    by (auto split: option.splits prod.splits)
  note IH = Cons.IH[OF rest]
  from processLine_catalog[OF st] show ?case
  proof
    assume "m = None \<and> list1 = list"
    with IH res show ?thesis by simp
  next
    assume "\<exists>i<length list. m = Some i \<and> \<not> used (list ! i) \<and> list1 = list[i := (list ! i)\<lparr>used := True\<rparr>]"
    then obtain i where i: "i < length list" "m = Some i" "\<not> used (list ! i)"
      "list1 = list[i := (list ! i)\<lparr>used := True\<rparr>]" by blast
    have len: "length list1 = length list" using i(4) by simp
    have ui: "used (list1 ! i)" using i(1,4) by simp
    have notin: "i \<notin> set ms2" using IH ui by blast
    have ms: "ms = i # ms2" using res i(2) by simp
    have d: "distinct ms" using IH notin ms by simp
    have l: "length list' = length list" using IH res len by simp
    have nth: "\<forall>j<length list. list' ! j = (list ! j)\<lparr>used := (used (list ! j) \<or> j \<in> set ms)\<rparr>"
    proof (intro allI impI)
      fix j assume j: "j < length list"
      then have "list' ! j = (list1 ! j)\<lparr>used := (used (list1 ! j) \<or> j \<in> set ms2)\<rparr>"
        using IH res len by simp
      then show "list' ! j = (list ! j)\<lparr>used := (used (list ! j) \<or> j \<in> set ms)\<rparr>"
        using i(1,4) j ms by (cases "j = i") auto
    qed
    have mem: "\<forall>j\<in>set ms. j < length list \<and> \<not> used (list ! j) \<and> used (list' ! j)"
    proof
      fix j assume "j \<in> set ms"
      then consider "j = i" | "j \<in> set ms2" "j \<noteq> i" using ms by auto
      then show "j < length list \<and> \<not> used (list ! j) \<and> used (list' ! j)"
      proof cases
        case 1
        then show ?thesis using i nth ms by simp
      next
        case 2
        then have "j < length list1 \<and> \<not> used (list1 ! j) \<and> used (list2 ! j)" using IH by blast
        then show ?thesis using 2 i(4) len res by simp
      qed
    qed
    from d l nth mem show ?thesis by blast
  qed
qed

text \<open>
  Two lines that declare the same size, and two files of that size: the first line takes
  entry 0, the second entry 1.
\<close>

theorem consumption_exclusive_witness:
  "processLines [entryImg, entryImg2]
      [''Attachment: no filename (image/jpeg, 439593 bytes)'', ''Attachment: no filename (image/jpeg, 439593 bytes)'']
    = Some ([entryImg\<lparr>used := True\<rparr>, entryImg2\<lparr>used := True\<rparr>],
            writeImageInclude ''attachments/IMG_0001.jpg'' @ writeImageInclude ''attachments/IMG_0002.jpg'', [0, 1])
   \<and> distinct [0, 1::nat] \<and> \<not> used entryImg \<and> \<not> used entryImg2"
proof -
  have run: "processLines [entryImg, entryImg2]
      [''Attachment: no filename (image/jpeg, 439593 bytes)'', ''Attachment: no filename (image/jpeg, 439593 bytes)'']
    = Some ([entryImg\<lparr>used := True\<rparr>, entryImg2\<lparr>used := True\<rparr>],
            writeImageInclude ''attachments/IMG_0001.jpg'' @ writeImageInclude ''attachments/IMG_0002.jpg'', [0, 1])"
    by code_simp
  from consumption_exclusive[OF run] have "distinct [0, 1::nat]"
    and "\<forall>i\<in>set [0, 1::nat]. \<not> used ([entryImg, entryImg2] ! i)" by blast+
  with run show ?thesis by simp
qed

text \<open>
  C6, as stated, fails: the catalog loaded from a listing with the name \<open>scan.pdf\<close>
  twice holds two entries of that name, and neither has the declared size of 5 bytes, so
  only the name search can bind. Two lines naming \<open>scan.pdf\<close> are bound to entry 0 and
  then to entry 1, the later duplicate: once entry 0 is used the name search returns 1.
\<close>

theorem duplicate_name_counterexample:
  "loadAttachmentsDir dupDir dupStat ''./attachments'' [] = Some [dupEntry, dupEntry]
   \<and> processLines [dupEntry, dupEntry]
        [''Attachment: scan.pdf (application/pdf, 5 bytes)'', ''Attachment: scan.pdf (application/pdf, 5 bytes)'']
      = Some ([dupEntry\<lparr>used := True\<rparr>, dupEntry\<lparr>used := True\<rparr>],
              writeNonImageAttachment ''attachments/scan.pdf'' @ writeNonImageAttachment ''attachments/scan.pdf'', [0, 1])
   \<and> findAttachmentByExactName [dupEntry\<lparr>used := True\<rparr>, dupEntry] ''scan.pdf'' = 1"
  by code_simp

text \<open>
  C6, amended. A name search returns an entry only when every earlier entry of that name
  is already consumed: when entries \<open>i < j\<close> carry the name and the search returns
  \<open>j\<close>, entry \<open>i\<close> is used. While the first duplicate is unconsumed, no search returns a
  later one.
\<close>

theorem later_duplicate_needs_earlier_consumed:
  assumes "i < j" and "j < length list" and "fileName (list ! i) = name"
    and "findAttachmentByExactName list name = int j"
  shows "used (list ! i) \<and> \<not> used (list ! j) \<and> fileName (list ! j) = name"
proof -
  from assms(2,4) have "findAttachmentByExactName list name \<noteq> -1" by simp
  with findByName_cases[of list name] obtain k where
    k: "k < length list" "findAttachmentByExactName list name = int k" "\<not> used (list ! k)"
       "fileName (list ! k) = name" "\<forall>j<k. used (list ! j) \<or> fileName (list ! j) \<noteq> name" by blast
  with assms(4) have "k = j" by simp
  with k assms(1,3) show ?thesis by blast
qed

theorem later_duplicate_needs_earlier_consumed_witness:
  "(0::nat) < 1 \<and> 1 < length [dupEntry\<lparr>used := True\<rparr>, dupEntry]
    \<and> fileName ([dupEntry\<lparr>used := True\<rparr>, dupEntry] ! 0) = ''scan.pdf''
    \<and> findAttachmentByExactName [dupEntry\<lparr>used := True\<rparr>, dupEntry] ''scan.pdf'' = int 1
    \<and> used ([dupEntry\<lparr>used := True\<rparr>, dupEntry] ! 0)"
proof -
  have h1: "(0::nat) < 1" by simp
  have h2: "1 < length [dupEntry\<lparr>used := True\<rparr>, dupEntry]" by simp
  have h3: "fileName ([dupEntry\<lparr>used := True\<rparr>, dupEntry] ! 0) = ''scan.pdf''" by (simp add: dupEntry_def)
  have h4: "findAttachmentByExactName [dupEntry\<lparr>used := True\<rparr>, dupEntry] ''scan.pdf'' = int 1" by code_simp
  from later_duplicate_needs_earlier_consumed[OF h1 h2 h3 h4] h1 h2 h3 h4 show ?thesis by blast
qed

text \<open>
  C10. When every byte with the high bit set is followed within the string by the bytes
  its lead-byte pattern announces, the escaping loop returns: its iterations advance over
  consecutive pieces of the string whose concatenation is the whole string, so each byte
  is visited once and in order; each iteration advances over exactly \<open>utf8CharLen\<close>
  bytes and writes either the replacement of its ASCII byte or the very bytes it advances
  over, between the delimiters; so no copy reaches the terminator.
\<close>

theorem escape_total:
  assumes "\<forall>i<length s. 128 \<le> (of_char (s ! i) :: nat) \<longrightarrow> i + utf8CharLen (s ! i) \<le> length s"
  shows "\<exists>steps. escapeSteps s = Some steps \<and> writeLatexEscaped s = Some (concat (map snd steps)) \<and>
           concat (map fst steps) = s \<and> (\<forall>st\<in>set steps. stepOf st)"
proof -
  from assms have "utf8Complete s" by (simp add: utf8Complete_nth)
  then obtain steps where st: "escapeSteps s = Some steps" using escapeSteps_defined by blast
  then have "writeLatexEscaped s = Some (concat (map snd steps))" by (simp add: writeLatexEscaped_def)
  with st escapeSteps_sound[OF st] show ?thesis by blast
qed

theorem escape_total_witness:
  "utf8Complete cafe
   \<and> escapeSteps cafe = Some [(''c'', ''c''), (''a'', ''a''), (''f'', ''f''),
        ([CHR 0xC3, CHR 0xA9], emojiOpen @ [CHR 0xC3, CHR 0xA9] @ emojiClose), (''_'', [bs, CHR ''_'']), (''1'', ''1'')]
   \<and> writeLatexEscaped cafe = Some (''caf'' @ emojiOpen @ [CHR 0xC3, CHR 0xA9] @ emojiClose @ [bs, CHR ''_''] @ ''1'')"
proof -
  have c: "utf8Complete cafe" by code_simp
  then have h: "\<forall>i<length cafe. 128 \<le> (of_char (cafe ! i) :: nat) \<longrightarrow> i + utf8CharLen (cafe ! i) \<le> length cafe"
    by (simp only: utf8Complete_nth)
  from escape_total[OF h] obtain steps where
    st: "escapeSteps cafe = Some steps" "writeLatexEscaped cafe = Some (concat (map snd steps))" by blast
  have ev: "escapeSteps cafe = Some [(''c'', ''c''), (''a'', ''a''), (''f'', ''f''),
        ([CHR 0xC3, CHR 0xA9], emojiOpen @ [CHR 0xC3, CHR 0xA9] @ emojiClose), (''_'', [bs, CHR ''_'']), (''1'', ''1'')]"
    by code_simp
  from st(1) ev have "steps = [(''c'', ''c''), (''a'', ''a''), (''f'', ''f''),
        ([CHR 0xC3, CHR 0xA9], emojiOpen @ [CHR 0xC3, CHR 0xA9] @ emojiClose), (''_'', [bs, CHR ''_'']), (''1'', ''1'')]"
    by simp
  with st(2) have "writeLatexEscaped cafe = Some (''caf'' @ emojiOpen @ [CHR 0xC3, CHR 0xA9] @ emojiClose @ [bs, CHR ''_''] @ ''1'')"
    by simp
  with c ev show ?thesis by blast
qed

text \<open>
  C4, as stated, fails: in the line \<open>E2 82 C3 A9\<close> the valid sequence \<open>C3 A9\<close>
  (U+00E9) follows a three-byte lead with a single continuation byte. The loop copies
  \<open>E2 82 C3\<close> as one character and \<open>A9\<close> as the next, and the output nowhere contains
  \<open>C3 A9\<close> contiguously.
\<close>

theorem sequence_split_counterexample:
  "utf8Sequence [CHR 0xC3, CHR 0xA9]
   \<and> writeLatexEscaped ([CHR 0xE2, CHR 0x82] @ [CHR 0xC3, CHR 0xA9])
       = Some (emojiOpen @ [CHR 0xE2, CHR 0x82, CHR 0xC3] @ emojiClose @ emojiOpen @ [CHR 0xA9] @ emojiClose)
   \<and> \<not> sublist [CHR 0xC3, CHR 0xA9]
          (emojiOpen @ [CHR 0xE2, CHR 0x82, CHR 0xC3] @ emojiClose @ emojiOpen @ [CHR 0xA9] @ emojiClose)"
  by code_simp


text \<open>
  C4, amended. When the loop's scan of the bytes before the sequence ends exactly at the
  sequence (the escaping of the prefix alone is defined, as it is for ASCII bytes and
  complete sequences), a multi-byte UTF-8 sequence in a line is written verbatim and
  contiguously between the opening and closing delimiters of the emoji command, after
  the escaped prefix and before the escaped rest of the line.
\<close>

theorem sequence_wrapped:
  assumes "utf8Sequence u" and "writeLatexEscaped a = Some ea" and "writeLatexEscaped b = Some eb"
  shows "writeLatexEscaped (a @ u @ b) = Some (ea @ emojiOpen @ u @ emojiClose @ eb)"
proof -
  from assms(2) obtain sa where sa: "escapeSteps a = Some sa" "ea = concat (map snd sa)"
    by (auto simp: writeLatexEscaped_def)
  from assms(3) obtain sb where sb: "escapeSteps b = Some sb" "eb = concat (map snd sb)"
    by (auto simp: writeLatexEscaped_def)
  have "escapeSteps (a @ u @ b) = Some (sa @ (u, emojiOpen @ u @ emojiClose) # sb)"
    using escapeSteps_append[OF sa(1), of "u @ b"] escapeSteps_sequence[OF assms(1), of b] sb(1) by simp
  then show ?thesis using sa(2) sb(2) by (simp add: writeLatexEscaped_def)
qed

theorem sequence_wrapped_witness:
  "utf8Sequence [CHR 0xC3, CHR 0xA9] \<and> writeLatexEscaped ''caf'' = Some ''caf''
   \<and> writeLatexEscaped ''_1'' = Some ([bs, CHR ''_''] @ ''1'')
   \<and> writeLatexEscaped (''caf'' @ [CHR 0xC3, CHR 0xA9] @ ''_1'')
       = Some (''caf'' @ emojiOpen @ [CHR 0xC3, CHR 0xA9] @ emojiClose @ [bs, CHR ''_''] @ ''1'')"
proof -
  have h1: "utf8Sequence [CHR 0xC3, CHR 0xA9]" by code_simp
  have h2: "writeLatexEscaped ''caf'' = Some ''caf''" by code_simp
  have h3: "writeLatexEscaped ''_1'' = Some ([bs, CHR ''_''] @ ''1'')" by code_simp
  from sequence_wrapped[OF h1 h2 h3] h1 h2 h3 show ?thesis by blast
qed

text \<open>
  C7, as stated, fails: a path of 5000 bytes without any \<open>.\<close> has no extension, and the
  derived path is its first 4095 bytes, not the path followed by \<open>.tex\<close>.
\<close>

theorem long_path_counterexample:
  "CHR ''.'' \<notin> set (replicate 5000 (CHR ''a''))
   \<and> outputPath (replicate 5000 (CHR ''a'')) = Some (replicate 4095 (CHR ''a''))
   \<and> outputPath (replicate 5000 (CHR ''a'')) \<noteq> Some (replicate 5000 (CHR ''a'') @ ''.tex'')"
proof -
  have nd: "CHR ''.'' \<notin> set (replicate 5000 (CHR ''a''))" by simp
  then have "strrchr (replicate 5000 (CHR ''a'')) (CHR ''.'') = None" by (rule strrchr_notin)
  then have out: "outputPath (replicate 5000 (CHR ''a'')) = Some (replicate 4095 (CHR ''a''))"
    by (simp add: outputPath_def snprintf_s_def MaxPathLen_def)
  have "length (replicate 4095 (CHR ''a'')) \<noteq> length (replicate 5000 (CHR ''a'') @ ''.tex'')" by simp
  then have "replicate 4095 (CHR ''a'') \<noteq> replicate 5000 (CHR ''a'') @ ''.tex''" by metis
  with nd out show ?thesis by simp
qed

text \<open>
  C7, amended. A path of at most 4091 bytes with no \<open>.\<close> after its first byte yields the
  path followed by \<open>.tex\<close>. A path \<open>base.ext\<close>, where \<open>ext\<close> holds neither \<open>.\<close> nor
  \<open>/\<close> and \<open>base\<close> is not empty, does not end in \<open>/\<close> and has at most 4091 bytes, yields
  \<open>base\<close> followed by \<open>.tex\<close>.
\<close>

theorem derived_output_path:
  "(CHR ''.'' \<notin> set (tl p) \<and> length p \<le> 4091 \<longrightarrow> outputPath p = Some (p @ ''.tex''))
   \<and> (base \<noteq> [] \<and> last base \<noteq> CHR ''/'' \<and> CHR ''.'' \<notin> set ext \<and> CHR ''/'' \<notin> set ext \<and> length base \<le> 4091
        \<longrightarrow> outputPath (base @ CHR ''.'' # ext) = Some (base @ ''.tex''))"
proof (intro conjI impI)
  assume a: "CHR ''.'' \<notin> set (tl p) \<and> length p \<le> 4091"
  then have "length (p @ ''.tex'') \<le> MaxPathLen - 1"
    by (simp add: MaxPathLen_def)
  then have fit: "snprintf_s MaxPathLen (p @ ''.tex'') = p @ ''.tex''"
    unfolding snprintf_s_def by (rule take_all)
  have "strrchr p (CHR ''.'') = None \<or> strrchr p (CHR ''.'') = Some 0"
  proof (cases p)
    case Nil
    then show ?thesis by simp
  next
    case (Cons x xs)
    with a have "CHR ''.'' \<notin> set xs" by simp
    then have "strrchr (x # xs) (CHR ''.'') = (if x = CHR ''.'' then Some 0 else None)"
      by (rule strrchr_head)
    with Cons show ?thesis by (simp del: strrchr.simps)
  qed
  then show "outputPath p = Some (p @ ''.tex'')"
    using fit by (auto simp: outputPath_def)
next
  assume b: "base \<noteq> [] \<and> last base \<noteq> CHR ''/'' \<and> CHR ''.'' \<notin> set ext \<and> CHR ''/'' \<notin> set ext \<and> length base \<le> 4091"
  then have "strrchr (base @ CHR ''.'' # ext) (CHR ''.'') = Some (length base)"
    by (simp add: strrchr_last)
  with b show "outputPath (base @ CHR ''.'' # ext) = Some (base @ ''.tex'')"
    by (simp add: outputPath_def MaxPathLen_def)
qed

theorem derived_output_path_witness:
  "CHR ''.'' \<notin> set (tl ''messages'') \<and> length ''messages'' \<le> 4091 \<and> outputPath ''messages'' = Some ''messages.tex''
   \<and> ''messages'' \<noteq> [] \<and> last ''messages'' \<noteq> CHR ''/'' \<and> CHR ''.'' \<notin> set ''txt'' \<and> CHR ''/'' \<notin> set ''txt''
   \<and> outputPath ''messages.txt'' = Some ''messages.tex''"
  using derived_output_path[of "''messages''" "''messages''" "''txt''"] by simp

text \<open>
  C8. Let a line begin with \<open>Attachment:\<close>, let its parsed reference match no entry
  (no unconsumed entry has its name, if it has one, and none has its byte count, if it has
  one), and let the escaping loop stay within the line. Then the iteration writes the
  opening of a quote block with the bold label \<open>Unmatched attachment placeholder:\<close>, the
  line, trimmed of its trailing white space and escaped as the specification's contract
  says, and the end of the quote block; it leaves the catalog unchanged and binds no
  entry; and the loop goes on with the following lines, whose output comes after the
  block.
\<close>

theorem unmatched_placeholder:
  assumes "startsWith buf ''Attachment:''"
    and "parseAttachmentLine (trimRight buf) MaxPathLen 128 = Some r"
    and "\<forall>x\<in>set list. \<not> used x \<longrightarrow>
           \<not> (outHasName r \<and> fileName x = outName r) \<and> \<not> (0 \<le> outBytes r \<and> fileSize x = outBytes r)"
    and "writeLatexEscaped (trimRight buf) \<noteq> None"
  shows "processLine list buf =
           Some (list,
                 (nl # bs # ''begin{quote}'' @ nl # bs # ''textbf{Unmatched attachment placeholder:} '')
                   @ specEscaped (trimRight buf) @ (bs # ''end{quote}'' @ [nl, nl]),
                 None)
       \<and> processLines list (buf # bufs) =
           (case processLines list bufs of
              None \<Rightarrow> None
            | Some (list', out, ms) \<Rightarrow>
                Some (list',
                      ((nl # bs # ''begin{quote}'' @ nl # bs # ''textbf{Unmatched attachment placeholder:} '')
                         @ specEscaped (trimRight buf) @ (bs # ''end{quote}'' @ [nl, nl])) @ out,
                      ms))"
proof -
  from attachment_line_trim[OF assms(1)] obtain rest where
    line: "trimRight buf = ''Attachment:'' @ trimRight rest" by blast
  from resolveIdx_cases[of list r] assms(3) have idx: "resolveIdx list r = -1"
    by (metis nth_mem)
  have esc: "writeLatexEscaped (trimRight buf) = Some (specEscaped (trimRight buf))"
    using assms(4) by (rule writeLatexEscaped_spec)
  have "processLine list buf = Some (list, unmatchedOpen @ specEscaped (trimRight buf) @ unmatchedClose, None)"
    using assms(2) esc idx attachment_line_dispatch[of "trimRight rest"]
    unfolding processLine_def line[symmetric] Let_def
    by (simp add: line)
  then have one: "processLine list buf =
           Some (list,
                 (nl # bs # ''begin{quote}'' @ nl # bs # ''textbf{Unmatched attachment placeholder:} '')
                   @ specEscaped (trimRight buf) @ (bs # ''end{quote}'' @ [nl, nl]),
                 None)"
    by (simp add: unmatchedOpen_def unmatchedClose_def)
  then show ?thesis by (simp split: option.splits prod.splits)
qed

text \<open>
  A line whose name holds a two-byte sequence and a reserved byte, against a catalog with
  neither that name nor that size, followed by a prose line with a reserved byte.
\<close>

theorem unmatched_placeholder_witness:
  "startsWith (accentLine @ [nl]) ''Attachment:''
   \<and> parseAttachmentLine (trimRight (accentLine @ [nl])) MaxPathLen 128 = Some accentRef
   \<and> \<not> used entryImg \<and> fileName entryImg \<noteq> outName accentRef \<and> fileSize entryImg \<noteq> outBytes accentRef
   \<and> writeLatexEscaped (trimRight (accentLine @ [nl])) \<noteq> None
   \<and> processLine [entryImg] (accentLine @ [nl])
        = Some ([entryImg],
                (nl # bs # ''begin{quote}'' @ nl # bs # ''textbf{Unmatched attachment placeholder:} '')
                  @ (''Attachment: caf'' @ bs # ''emoji{'' @ [CHR 0xC3, CHR 0xA9] @ ''}'' @ bs # ''_1.pdf (application/pdf, 1024 bytes)'')
                  @ (bs # ''end{quote}'' @ [nl, nl]),
                None)
   \<and> processLines [entryImg] [accentLine @ [nl], ''a&b'']
        = Some ([entryImg],
                ((nl # bs # ''begin{quote}'' @ nl # bs # ''textbf{Unmatched attachment placeholder:} '')
                  @ (''Attachment: caf'' @ bs # ''emoji{'' @ [CHR 0xC3, CHR 0xA9] @ ''}'' @ bs # ''_1.pdf (application/pdf, 1024 bytes)'')
                  @ (bs # ''end{quote}'' @ [nl, nl]))
                  @ (''a'' @ bs # ''&b'' @ [bs, bs, nl]),
                [])"
proof -
  have h1: "startsWith (accentLine @ [nl]) ''Attachment:''" by code_simp
  have h2: "parseAttachmentLine (trimRight (accentLine @ [nl])) MaxPathLen 128 = Some accentRef" by code_simp
  have h3: "\<forall>x\<in>set [entryImg]. \<not> used x \<longrightarrow>
         \<not> (outHasName accentRef \<and> fileName x = outName accentRef)
         \<and> \<not> (0 \<le> outBytes accentRef \<and> fileSize x = outBytes accentRef)"
    by (simp add: entryImg_def accentRef_def)
  have h4: "writeLatexEscaped (trimRight (accentLine @ [nl])) \<noteq> None" by code_simp
  have h5: "\<not> used entryImg \<and> fileName entryImg \<noteq> outName accentRef \<and> fileSize entryImg \<noteq> outBytes accentRef"
    by (simp add: entryImg_def accentRef_def)
  have sp: "specEscaped (trimRight (accentLine @ [nl]))
      = ''Attachment: caf'' @ bs # ''emoji{'' @ [CHR 0xC3, CHR 0xA9] @ ''}'' @ bs # ''_1.pdf (application/pdf, 1024 bytes)''"
    by code_simp
  have rest: "processLines [entryImg] [''a&b''] = Some ([entryImg], ''a'' @ bs # ''&b'' @ [bs, bs, nl], [])" by code_simp
  from unmatched_placeholder[OF h1 h2 h3 h4, of "[''a&b'']"] rest h1 h2 h4 h5 show ?thesis
    unfolding sp by simp
qed

text \<open>
  C9. A line that begins with \<open>attachment:\<close> in a casing other than \<open>Attachment:\<close> is
  escaped as prose with a forced line break, and the catalog is untouched. A line that
  begins with \<open>Type:\<close> or \<open>Received:\<close> in any casing gives no output. A line that
  begins with \<open>From:\<close> in any casing is cut at its first \<open>(\<close>, trimmed, and escaped as
  prose. ``In any casing'' is: the lower-case form of the first bytes is the lower-case
  marker. Where the result is escaped text it is defined exactly when the escaping is.
\<close>

theorem mixed_case_sensitivity:
  assumes "buf = pre @ rest"
  shows "(map c_tolower pre = ''attachment:'' \<and> pre \<noteq> ''Attachment:'' \<longrightarrow>
            processLine list buf = map_option (\<lambda>e. (list, e @ lineBreak, None)) (writeLatexEscaped (trimRight buf)))
       \<and> (map c_tolower pre = ''type:'' \<or> map c_tolower pre = ''received:'' \<longrightarrow>
            processLine list buf = Some (list, [], None))
       \<and> (map c_tolower pre = ''from:'' \<longrightarrow>
            processLine list buf = map_option (\<lambda>e. (list, e @ lineBreak, None))
              (writeLatexEscaped (trimRight (takeWhile (\<lambda>c. c \<noteq> CHR ''('') buf))))"
proof (intro conjI impI)
  assume a: "map c_tolower pre = ''attachment:'' \<and> pre \<noteq> ''Attachment:''"
  then have lp: "map c_tolower pre = ''attachment:''" by simp
  have "pre \<noteq> [] \<and> last pre = CHR '':'' \<and> \<not> trimChar (last pre) \<and> CHR '':'' \<in> set pre"
    by (rule marker_last[OF lp]) simp_all
  then have pre: "pre \<noteq> []" "\<not> trimChar (last pre)" by blast+
  then have line: "trimRight buf = pre @ trimRight rest"
    unfolding assms by (rule trimRight_append_keep)
  have n1: "\<not> startsWithIgnoreCase (trimRight buf) ''Type:''"
    unfolding line by (rule startsWithIgnoreCase_not[OF lp]) code_simp
  have n2: "\<not> startsWithIgnoreCase (trimRight buf) ''Received:''"
    unfolding line by (rule startsWithIgnoreCase_not[OF lp]) code_simp
  have n3: "\<not> startsWithIgnoreCase (trimRight buf) ''From:''"
    unfolding line by (rule startsWithIgnoreCase_not[OF lp]) code_simp
  have len: "length pre = length ''Attachment:''" using lp by (metis length_map lower_markers(4))
  have n4: "\<not> startsWith (trimRight buf) ''Attachment:''"
    unfolding line startsWith_def using a len by simp
  have ne: "trimRight buf \<noteq> []" unfolding line using pre(1) by simp
  show "processLine list buf = map_option (\<lambda>e. (list, e @ lineBreak, None)) (writeLatexEscaped (trimRight buf))"
    by (rule processLine_prose[OF n1 n2 _ n4]) (simp_all add: n3 trimRight_idem ne)
next
  assume a: "map c_tolower pre = ''type:'' \<or> map c_tolower pre = ''received:''"
  then have "pre \<noteq> [] \<and> \<not> trimChar (last pre)"
    using marker_last[of pre "''type:''"] marker_last[of pre "''received:''"] by auto
  then have line: "trimRight buf = pre @ trimRight rest"
    unfolding assms by (intro trimRight_append_keep) simp_all
  from a show "processLine list buf = Some (list, [], None)"
  proof
    assume t: "map c_tolower pre = ''type:''"
    have "map c_tolower pre = map c_tolower ''Type:''" unfolding lower_markers by (rule t)
    then have "startsWithIgnoreCase (pre @ trimRight rest) ''Type:''" by (rule startsWithIgnoreCase_same)
    then show ?thesis unfolding processLine_def Let_def line by simp
  next
    assume r: "map c_tolower pre = ''received:''"
    have "map c_tolower pre = map c_tolower ''Received:''" unfolding lower_markers by (rule r)
    then have "startsWithIgnoreCase (pre @ trimRight rest) ''Received:''" by (rule startsWithIgnoreCase_same)
    then show ?thesis unfolding processLine_def Let_def line by simp
  qed
next
  assume lp: "map c_tolower pre = ''from:''"
  let ?cut = "takeWhile (\<lambda>c. c \<noteq> CHR ''('')"
  have "pre \<noteq> [] \<and> last pre = CHR '':'' \<and> \<not> trimChar (last pre) \<and> CHR '':'' \<in> set pre"
    by (rule marker_last[OF lp]) simp_all
  then have pre: "pre \<noteq> []" "\<not> trimChar (last pre)" "CHR '':'' \<in> set pre" by blast+
  have np: "CHR ''('' \<notin> set pre" by (rule marker_no_paren[OF lp]) simp
  have line: "trimRight buf = pre @ trimRight rest"
    unfolding assms using pre(1,2) by (rule trimRight_append_keep)
  have n1: "\<not> startsWithIgnoreCase (trimRight buf) ''Type:''"
    unfolding line by (rule startsWithIgnoreCase_not[OF lp]) code_simp
  have n2: "\<not> startsWithIgnoreCase (trimRight buf) ''Received:''"
    unfolding line by (rule startsWithIgnoreCase_not[OF lp]) code_simp
  have y: "startsWithIgnoreCase (trimRight buf) ''From:''"
    unfolding line by (rule startsWithIgnoreCase_same) (simp only: lp lower_markers)
  have cut: "?cut (pre @ trimRight rest) = pre @ ?cut (trimRight rest)"
    using np by (intro takeWhile_append2) auto
  have strip: "stripPhoneFromFromLine (trimRight buf) = trimRight (?cut (trimRight buf))"
  proof (cases "CHR ''('' \<in> set (trimRight rest)")
    case True
    then show ?thesis unfolding line cut by (simp add: stripPhone_eq[OF pre(3) np])
  next
    case False
    then have e: "?cut (trimRight rest) = trimRight rest" by auto
    have "trimRight (?cut (trimRight buf)) = trimRight (trimRight buf)"
      unfolding line cut e by (rule refl)
    then have r: "trimRight (?cut (trimRight buf)) = trimRight buf"
      by (simp only: trimRight_idem)
    have "stripPhoneFromFromLine (pre @ trimRight rest) = pre @ trimRight rest"
      using False by (simp add: stripPhone_eq[OF pre(3) np])
    then have "stripPhoneFromFromLine (trimRight buf) = trimRight buf"
      by (simp only: line)
    with r show ?thesis by (simp only:)
  qed
  have res: "trimRight (?cut buf) = pre @ trimRight (?cut (trimRight rest))"
    unfolding trimRight_takeWhile[of buf, symmetric] line cut using pre(1,2) by (rule trimRight_append_keep)
  have n4: "\<not> startsWith (trimRight (?cut buf)) ''Attachment:''"
    unfolding res by (rule startsWith_not[OF lp]) code_simp
  have ne: "trimRight (?cut buf) \<noteq> []" unfolding res using pre(1) by simp
  show "processLine list buf = map_option (\<lambda>e. (list, e @ lineBreak, None)) (writeLatexEscaped (trimRight (?cut buf)))"
    by (rule processLine_prose[OF n1 n2 _ n4]) (simp_all add: y strip trimRight_takeWhile trimRight_idem ne)
qed

theorem mixed_case_sensitivity_witness:
  "map c_tolower ''attachment:'' = ''attachment:'' \<and> ''attachment:'' \<noteq> ''Attachment:''
   \<and> processLine [entryImg] ''attachment: no filename (image/jpeg, 439593 bytes)''
       = Some ([entryImg], ''attachment: no filename (image/jpeg, 439593 bytes)'' @ lineBreak, None)
   \<and> map c_tolower ''TYPE:'' = ''type:'' \<and> processLine [entryImg] ''TYPE: incoming'' = Some ([entryImg], [], None)
   \<and> map c_tolower ''received:'' = ''received:'' \<and> processLine [entryImg] ''received: today'' = Some ([entryImg], [], None)
   \<and> map c_tolower ''FROM:'' = ''from:''
   \<and> processLine [entryImg] ''FROM: Jane Doe (+15551234567)'' = Some ([entryImg], ''FROM: Jane Doe'' @ lineBreak, None)"
proof -
  have a: "map c_tolower ''attachment:'' = ''attachment:'' \<and> ''attachment:'' \<noteq> ''Attachment:''" by code_simp
  have t: "map c_tolower ''TYPE:'' = ''type:''" by code_simp
  have r: "map c_tolower ''received:'' = ''received:''" by code_simp
  have f: "map c_tolower ''FROM:'' = ''from:''" by code_simp
  have e1: "writeLatexEscaped (trimRight ''attachment: no filename (image/jpeg, 439593 bytes)'')
      = Some ''attachment: no filename (image/jpeg, 439593 bytes)''" by code_simp
  have e2: "writeLatexEscaped (trimRight (takeWhile (\<lambda>c. c \<noteq> CHR ''('') ''FROM: Jane Doe (+15551234567)''))
      = Some ''FROM: Jane Doe''" by code_simp
  have split1: "''attachment: no filename (image/jpeg, 439593 bytes)'' = ''attachment:'' @ '' no filename (image/jpeg, 439593 bytes)''"
    by simp
  have split2: "''TYPE: incoming'' = ''TYPE:'' @ '' incoming''" by simp
  have split3: "''received: today'' = ''received:'' @ '' today''" by simp
  have split4: "''FROM: Jane Doe (+15551234567)'' = ''FROM:'' @ '' Jane Doe (+15551234567)''" by simp
  from mixed_case_sensitivity[OF split1, of "[entryImg]"] a e1
  have p1: "processLine [entryImg] ''attachment: no filename (image/jpeg, 439593 bytes)''
       = Some ([entryImg], ''attachment: no filename (image/jpeg, 439593 bytes)'' @ lineBreak, None)"
    by simp
  from mixed_case_sensitivity[OF split2, of "[entryImg]"] t
  have p2: "processLine [entryImg] ''TYPE: incoming'' = Some ([entryImg], [], None)" by simp
  from mixed_case_sensitivity[OF split3, of "[entryImg]"] r
  have p3: "processLine [entryImg] ''received: today'' = Some ([entryImg], [], None)" by simp
  from mixed_case_sensitivity[OF split4, of "[entryImg]"] f e2
  have p4: "processLine [entryImg] ''FROM: Jane Doe (+15551234567)'' = Some ([entryImg], ''FROM: Jane Doe'' @ lineBreak, None)"
    by simp
  from a t r f p1 p2 p3 p4 show ?thesis by blast
qed

end
